theory Spec2Isabelle
  imports Complex_Main "HOL-Library.Log_Nat"
begin

section \<open>The fee model of scripts/feecalc.py\<close>

subsection \<open>Python values: errors, floats and the math module\<close>

text \<open>
  The exceptions the arithmetic of the script can raise. A raising call is the
  left injection of a sum, a returning call the right one.
\<close>

datatype py_error = ValueError | OverflowError | ZeroDivisionError

text \<open>
  A Python \<open>float\<close> is an IEEE 754 binary64 number. A finite one is modelled by the real
  number it denotes; the operations below round every exact result to the nearest
  binary64 number, ties to the even significand, as the hardware and CPython's integer
  division do. \<open>round_half_even\<close> rounds a real to an integer; \<open>floor_log2 x\<close> is the
  binary exponent of a positive \<open>x\<close>, the integer \<open>k\<close> with \<open>2 powi k \<le> x < 2 powi (k + 1)\<close>,
  computed from bit lengths; \<open>ulp_exponent x\<close> is the exponent of the last significand
  bit of the binade of \<open>x\<close> (53 significand bits, subnormals below \<open>2 powi - 1022\<close>).
\<close>

definition round_half_even :: "real \<Rightarrow> int" where
  "round_half_even x =
     (let f = \<lfloor>x\<rfloor>; d = x - of_int f
      in if d < 1 / 2 then f else if 1 / 2 < d then f + 1 else if even f then f else f + 1)"

definition floor_log2 :: "real \<Rightarrow> int" where
  "floor_log2 x = (if 1 \<le> x then bitlen \<lfloor>x\<rfloor> - 1 else - bitlen (\<lceil>1 / x\<rceil> - 1))"

definition ulp_exponent :: "real \<Rightarrow> int" where
  "ulp_exponent x = max (floor_log2 \<bar>x\<bar>) (- 1022) - 52"

definition round_double :: "real \<Rightarrow> real" where
  "round_double x =
     (if x = 0 then 0
      else of_int (round_half_even (x / 2 powi ulp_exponent x)) * 2 powi ulp_exponent x)"

text \<open>
  \<open>a / b\<close> on two ints (CPython's \<open>long_true_divide\<close>): the correctly rounded quotient,
  ZeroDivisionError for a zero divisor, OverflowError when the rounded quotient is
  beyond the largest finite float.
\<close>

definition int_true_div :: "int \<Rightarrow> int \<Rightarrow> py_error + real" where
  "int_true_div a b =
     (if b = 0 then Inl ZeroDivisionError
      else let r = round_double (of_int a / of_int b)
           in if 2 ^ 1024 \<le> \<bar>r\<bar> then Inl OverflowError else Inr r)"

text \<open>\<open>math.ceil\<close> on a finite float: the least integer not below it, as an int.\<close>

definition math_ceil :: "real \<Rightarrow> int" where
  "math_ceil x = \<lceil>x\<rceil>"

text \<open>
  The conversion of an int to a float (\<open>PyLong_AsDouble\<close>): correctly rounded,
  OverflowError when the int is too large.
\<close>

definition int_to_double :: "int \<Rightarrow> py_error + real" where
  "int_to_double n =
     (let r = round_double (of_int n)
      in if 2 ^ 1024 \<le> \<bar>r\<bar> then Inl OverflowError else Inr r)"

text \<open>
  A finite binary64 number: a real that rounding leaves unchanged, within the range of
  the format.
\<close>

definition is_double :: "real \<Rightarrow> bool" where
  "is_double x \<longleftrightarrow> round_double x = x \<and> \<bar>x\<bar> < 2 ^ 1024"

text \<open>
  The C library's \<open>log2\<close> on a positive finite double. It is part neither of the script
  nor of CPython, and the C standard does not fix its accuracy; a library need not round
  it correctly, and need not even be monotone. Only a contract is taken of it: its
  result is a finite double within two units in the last place of the exact logarithm
  \<open>log 2 x\<close>, and it is exact on the powers of two from \<open>2 powi - 1074\<close> to
  \<open>2 powi 1023\<close>, as CPython's own tests of \<open>math.log2\<close> require. \<open>libm_log2\<close> is an
  arbitrary function under this contract, so that only what the contract implies can
  be proved of it, and nothing of the direction in which the last bit is rounded. It
  is the one definition that does not compute; its values are derived by proof.
\<close>

definition libm_log2_contract :: "(real \<Rightarrow> real) \<Rightarrow> bool" where
  "libm_log2_contract f \<longleftrightarrow>
     (\<forall>x. 0 < x \<and> is_double x \<longrightarrow>
        is_double (f x) \<and> \<bar>f x - log 2 x\<bar> \<le> 2 * 2 powi ulp_exponent (log 2 x))
     \<and> (\<forall>k. - 1074 \<le> k \<and> k \<le> 1023 \<longrightarrow> f (2 powi k) = of_int k)"

definition libm_log2 :: "real \<Rightarrow> real" where
  "libm_log2 = (SOME f. libm_log2_contract f)"

text \<open>
  \<open>_PyLong_Frexp\<close> on a positive int \<open>n\<close>: a float \<open>x\<close> with \<open>1/2 \<le> x < 1\<close> and an
  exponent \<open>e\<close> with \<open>n\<close> about \<open>x * 2 ^ e\<close>; \<open>x\<close> is \<open>n\<close> scaled by its bit length
  (\<open>bitlen\<close>) and rounded to 53 bits, and a significand that rounds up to 1 is
  renormalised.
\<close>

definition long_frexp :: "int \<Rightarrow> real \<times> int" where
  "long_frexp n =
     (let e = bitlen n;
          x = of_int (round_half_even (of_int n / 2 powi (e - 53))) / 2 ^ 53
      in if x = 1 then (1 / 2, e + 1) else (x, e))"

text \<open>
  \<open>math.log2\<close> on an int (CPython's \<open>loghelper\<close>): ValueError unless the int is
  positive; the logarithm of the int converted to a float; and, when that conversion
  overflows, \<open>log2(x) + log2(2.0) * e\<close> for the \<open>(x, e)\<close> of \<open>_PyLong_Frexp\<close>. The
  exponent \<open>e\<close> is at most the bit length of the int plus one, below \<open>2 ^ 53\<close> for every
  int that fits in memory, so its conversion to a float and its product with
  \<open>log2(2.0) = 1.0\<close> are exact; only the sum is rounded.
\<close>

definition math_log2 :: "int \<Rightarrow> py_error + real" where
  "math_log2 n =
     (if n \<le> 0 then Inl ValueError
      else case int_to_double n of
             Inr x \<Rightarrow> Inr (libm_log2 x)
           | Inl err \<Rightarrow>
               (case long_frexp n of
                  (x, e) \<Rightarrow> Inr (round_double (libm_log2 x + libm_log2 2 * of_int e))))"

subsection \<open>The unit rates\<close>

definition COMPUTATION_UNIT_PER_CYCLE_BUCKET :: int where
  "COMPUTATION_UNIT_PER_CYCLE_BUCKET = 500"

definition COMPUTATION_UNIT_PER_CREATED_NOTE :: int where
  "COMPUTATION_UNIT_PER_CREATED_NOTE = 50"

definition COMPUTATION_UNIT_PER_CONSUMED_NOTE :: int where
  "COMPUTATION_UNIT_PER_CONSUMED_NOTE = 30"

definition COMPUTATION_UNIT_PER_KILO_BYTE :: int where
  "COMPUTATION_UNIT_PER_KILO_BYTE = 15"

subsection \<open>ComputationSummary\<close>

record ComputationSummary =
  cycle_units :: int
  notes_consumed_units :: int
  notes_created_units :: int
  data_units :: int

definition total_computation_units :: "ComputationSummary \<Rightarrow> int" where
  "total_computation_units s =
     cycle_units s + notes_consumed_units s + notes_created_units s + data_units s"

subsection \<open>TransactionMetrics\<close>

record TransactionMetrics =
  num_cycles :: int
  num_notes_consumed :: int
  num_notes_created :: int
  created_public_notes_byte_size :: int
  public_account_delta_byte_size :: int

definition cycle_bucket :: "TransactionMetrics \<Rightarrow> py_error + int" where
  "cycle_bucket tx =
     (case math_log2 (num_cycles tx) of
        Inl err \<Rightarrow> Inl err
      | Inr x \<Rightarrow> Inr (math_ceil x))"

definition kilo_bytes :: "TransactionMetrics \<Rightarrow> py_error + int" where
  "kilo_bytes tx =
     (case int_true_div
             (created_public_notes_byte_size tx + public_account_delta_byte_size tx) 1000 of
        Inl err \<Rightarrow> Inl err
      | Inr x \<Rightarrow> Inr (math_ceil x))"

definition calculate_computation_units :: "TransactionMetrics \<Rightarrow> py_error + ComputationSummary" where
  "calculate_computation_units tx =
     (case cycle_bucket tx of
        Inl err \<Rightarrow> Inl err
      | Inr cb \<Rightarrow>
          (case kilo_bytes tx of
             Inl err \<Rightarrow> Inl err
           | Inr kb \<Rightarrow>
               Inr \<lparr>cycle_units = cb * COMPUTATION_UNIT_PER_CYCLE_BUCKET,
                    notes_consumed_units = num_notes_consumed tx * COMPUTATION_UNIT_PER_CONSUMED_NOTE,
                    notes_created_units = num_notes_created tx * COMPUTATION_UNIT_PER_CREATED_NOTE,
                    data_units = kb * COMPUTATION_UNIT_PER_KILO_BYTE\<rparr>))"

section \<open>Rounding to binary64\<close>

subsection \<open>Rounding to an integer, ties to even\<close>

text \<open>
  \<open>round_half_even\<close> fixes the integers, is monotone and odd, and a fraction above or
  below one half decides the direction.
\<close>

lemma round_half_even_of_int: "round_half_even (of_int k) = k"
  by (simp add: round_half_even_def)

lemma round_half_even_mono: "x \<le> y \<Longrightarrow> round_half_even x \<le> round_half_even y"
proof -
  assume xy: "x \<le> y"
  have fl: "\<lfloor>x\<rfloor> \<le> \<lfloor>y\<rfloor>" using xy by (rule floor_mono)
  show ?thesis
  proof (cases "\<lfloor>x\<rfloor> = \<lfloor>y\<rfloor>")
    case True
    then show ?thesis using xy by (auto simp: round_half_even_def Let_def)
  next
    case False
    with fl have "\<lfloor>x\<rfloor> + 1 \<le> \<lfloor>y\<rfloor>" by simp
    moreover have "round_half_even x \<le> \<lfloor>x\<rfloor> + 1" by (simp add: round_half_even_def Let_def)
    moreover have "\<lfloor>y\<rfloor> \<le> round_half_even y" by (simp add: round_half_even_def Let_def)
    ultimately show ?thesis by linarith
  qed
qed

lemma round_half_even_uminus: "round_half_even (- x) = - round_half_even x"
proof (cases "x \<in> \<int>")
  case True
  then obtain k where "x = of_int k" by (auto elim: Ints_cases)
  then show ?thesis using round_half_even_of_int[of "- k"] round_half_even_of_int[of k] by simp
next
  case False
  then have fl: "\<lfloor>- x\<rfloor> = - \<lfloor>x\<rfloor> - 1"
  proof -
    have "x \<noteq> of_int \<lfloor>x\<rfloor>" using False by (metis Ints_of_int)
    then have "\<lceil>x\<rceil> = \<lfloor>x\<rfloor> + 1" by (simp add: ceiling_altdef)
    then show ?thesis by (simp add: ceiling_def)
  qed
  show ?thesis
    unfolding round_half_even_def Let_def fl
    by (auto) 
qed

lemma round_half_even_ge:
  assumes "of_int m + 1 / 2 < y" shows "m + 1 \<le> round_half_even y"
proof (cases "m + 1 \<le> \<lfloor>y\<rfloor>")
  case True
  moreover have "\<lfloor>y\<rfloor> \<le> round_half_even y" by (simp add: round_half_even_def Let_def)
  ultimately show ?thesis by linarith
next
  case False
  have "of_int m \<le> y" using assms by linarith
  then have "m \<le> \<lfloor>y\<rfloor>" by (simp add: le_floor_iff)
  with False have "\<lfloor>y\<rfloor> = m" by linarith
  then show ?thesis using assms by (simp add: round_half_even_def Let_def)
qed

subsection \<open>The exponent of the last place\<close>

text \<open>
  \<open>floor_log2\<close> computes the floor of the base-2 logarithm, so \<open>ulp_exponent\<close> can be
  read off the binade of its argument; a non-zero \<open>x\<close> lies below
  \<open>2 powi (ulp_exponent x + 53)\<close> and, unless subnormal, at or above
  \<open>2 powi (ulp_exponent x + 52)\<close>.
\<close>

lemma floor_log2_eq_iff:
  "0 < x \<Longrightarrow> \<lfloor>log 2 x\<rfloor> = k \<longleftrightarrow> 2 powi k \<le> x \<and> x < 2 powi (k + 1)"
  using floor_log_eq_powr_iff[of x 2 k] powr_real_of_int'[of 2 k] powr_real_of_int'[of 2 "k + 1"]
  by (simp add: add.commute)

lemma floor_log2_int:
  fixes n :: int
  assumes "0 < n"
  obtains j :: nat where "2 ^ j \<le> n" "n < 2 ^ (j + 1)" "bitlen n = int j + 1"
proof -
  define j where "j = nat \<lfloor>log 2 (real_of_int n)\<rfloor>"
  have "1 \<le> real_of_int n" using assms by simp
  then have "0 \<le> log 2 (real_of_int n)" by simp
  then have j: "\<lfloor>log 2 (real_of_int n)\<rfloor> = int j" by (simp add: j_def)
  have "2 powi (int j) \<le> real_of_int n \<and> real_of_int n < 2 powi (int j + 1)"
    using floor_log2_eq_iff[of "real_of_int n" "int j"] assms j by simp
  moreover have "int j + 1 = int (j + 1)" by simp
  ultimately have "real_of_int (2 ^ j) \<le> real_of_int n" "real_of_int n < real_of_int (2 ^ (j + 1))"
    by (simp_all only: power_int_of_nat of_int_power of_int_numeral)
  then have "2 ^ j \<le> n" "n < 2 ^ (j + 1)" by (simp_all only: of_int_le_iff of_int_less_iff)
  moreover have "bitlen n = int j + 1" using assms j by (simp add: bitlen_alt_def)
  ultimately show ?thesis by (rule that)
qed

lemma floor_log2_eq:
  assumes "0 < x" shows "floor_log2 x = \<lfloor>log 2 x\<rfloor>"
proof (cases "1 \<le> x")
  case True
  define m where "m = \<lfloor>x\<rfloor>"
  have m: "0 < m" using True by (simp add: m_def)
  obtain j :: nat where j: "2 ^ j \<le> m" "m < 2 ^ (j + 1)" "bitlen m = int j + 1"
    using m by (rule floor_log2_int)
  have "real_of_int (2 ^ j) \<le> real_of_int m" using j(1) by (simp only: of_int_le_iff)
  then have "2 ^ j \<le> real_of_int m" by simp
  moreover have "real_of_int m \<le> x" by (simp add: m_def)
  ultimately have "2 ^ j \<le> x" by linarith
  then have lo: "2 powi (int j) \<le> x" by simp
  have "m + 1 \<le> 2 ^ (j + 1)" using j(2) by simp
  then have "real_of_int (m + 1) \<le> real_of_int (2 ^ (j + 1))" by (simp only: of_int_le_iff)
  then have "real_of_int m + 1 \<le> 2 ^ (j + 1)" by simp
  moreover have "x < real_of_int m + 1" by (simp add: m_def)
  ultimately have "x < 2 ^ (j + 1)" by linarith
  moreover have "(2::real) powi (int j + 1) = 2 ^ (j + 1)" by (simp add: power_int_add)
  ultimately have hi: "x < 2 powi (int j + 1)" by simp
  have "\<lfloor>log 2 x\<rfloor> = int j" using floor_log2_eq_iff[OF assms, of "int j"] lo hi by simp
  then show ?thesis using True j(3) by (simp add: floor_log2_def m_def)
next
  case False
  define m where "m = \<lceil>1 / x\<rceil> - 1"
  have "1 < 1 / x" using False assms by simp
  then have "1 < \<lceil>1 / x\<rceil>" by (simp add: less_ceiling_iff)
  then have m: "0 < m" by (simp add: m_def)
  obtain j :: nat where j: "2 ^ j \<le> m" "m < 2 ^ (j + 1)" "bitlen m = int j + 1"
    using m by (rule floor_log2_int)
  have "m + 1 \<le> 2 ^ (j + 1)" using j(2) by simp
  then have "real_of_int (m + 1) \<le> real_of_int (2 ^ (j + 1))" by (simp only: of_int_le_iff)
  then have "real_of_int m + 1 \<le> 2 ^ (j + 1)" by simp
  moreover have "1 / x \<le> real_of_int m + 1" by (simp add: m_def)
  ultimately have "1 / x \<le> 2 ^ (j + 1)" by linarith
  then have "1 \<le> 2 ^ (j + 1) * x" using assms by (simp add: field_simps)
  then have "1 / 2 ^ (j + 1) \<le> x" by (simp add: field_simps)
  moreover have "(2::real) powi (- int (j + 1)) = 1 / 2 ^ (j + 1)"
    by (simp only: power_int_minus_divide power_int_of_nat)
  ultimately have lo: "2 powi (- int (j + 1)) \<le> x" by simp
  have "real_of_int (2 ^ j) \<le> real_of_int m" using j(1) by (simp only: of_int_le_iff)
  then have "2 ^ j \<le> real_of_int m" by simp
  moreover have "real_of_int m < 1 / x" unfolding m_def by linarith
  ultimately have "2 ^ j < 1 / x" by linarith
  then have "2 ^ j * x < 1" using assms by (simp add: field_simps)
  then have "x < 1 / 2 ^ j" by (simp add: field_simps)
  moreover have "- int (j + 1) + 1 = - int j" by simp
  then have "(2::real) powi (- int (j + 1) + 1) = 1 / 2 ^ j"
    by (simp only: power_int_minus_divide power_int_of_nat)
  ultimately have hi: "x < 2 powi (- int (j + 1) + 1)" by simp
  have "\<lfloor>log 2 x\<rfloor> = - int (j + 1)"
    using floor_log2_eq_iff[OF assms, of "- int (j + 1)"] lo hi by simp
  then show ?thesis using False j(3) by (simp add: floor_log2_def m_def)
qed

lemma ulp_exponent_alt:
  assumes "x \<noteq> 0" shows "ulp_exponent x = max \<lfloor>log 2 \<bar>x\<bar>\<rfloor> (- 1022) - 52"
  using assms by (simp add: ulp_exponent_def floor_log2_eq)

lemma bitlen_floor_log2:
  assumes "0 < n" shows "bitlen n = \<lfloor>log 2 (real_of_int n)\<rfloor> + 1"
  using assms by (simp add: bitlen_alt_def)

lemma ulp_exponent_uminus: "ulp_exponent (- x) = ulp_exponent x"
  by (simp add: ulp_exponent_def)

lemma ulp_exponent_ge: "- 1074 \<le> ulp_exponent x"
  by (simp add: ulp_exponent_def)

lemma ulp_exponent_upper:
  assumes "x \<noteq> 0" shows "\<bar>x\<bar> < 2 powi (ulp_exponent x + 53)"
proof -
  define k where "k = \<lfloor>log 2 \<bar>x\<bar>\<rfloor>"
  have "\<bar>x\<bar> < 2 powi (k + 1)" using assms floor_log2_eq_iff[of "\<bar>x\<bar>" k] by (simp add: k_def)
  also have "(2::real) powi (k + 1) \<le> 2 powi (ulp_exponent x + 53)"
    by (rule power_int_increasing) (simp_all add: ulp_exponent_alt[OF assms] k_def)
  finally show ?thesis .
qed

lemma ulp_exponent_lower:
  assumes "x \<noteq> 0" "- 1074 < ulp_exponent x" shows "2 powi (ulp_exponent x + 52) \<le> \<bar>x\<bar>"
proof -
  define k where "k = \<lfloor>log 2 \<bar>x\<bar>\<rfloor>"
  have "ulp_exponent x + 52 = k"
    using assms(2) by (simp add: ulp_exponent_alt[OF assms(1)] k_def max_def split: if_splits)
  moreover have "2 powi k \<le> \<bar>x\<bar>" using assms(1) floor_log2_eq_iff[of "\<bar>x\<bar>" k] by (simp add: k_def)
  ultimately show ?thesis by simp
qed

lemma ulp_exponent_mono:
  assumes "x \<noteq> 0" "\<bar>x\<bar> \<le> \<bar>y\<bar>" shows "ulp_exponent x \<le> ulp_exponent y"
proof -
  have "log 2 \<bar>x\<bar> \<le> log 2 \<bar>y\<bar>" using assms by (intro log_mono) simp_all
  then have "\<lfloor>log 2 \<bar>x\<bar>\<rfloor> \<le> \<lfloor>log 2 \<bar>y\<bar>\<rfloor>" by (rule floor_mono)
  moreover have "y \<noteq> 0" using assms by auto
  ultimately show ?thesis using assms(1) by (simp add: ulp_exponent_alt)
qed

lemma ulp_exponent_eq:
  assumes "2 powi k \<le> \<bar>x\<bar>" "\<bar>x\<bar> < 2 powi (k + 1)"
  shows "ulp_exponent x = max k (- 1022) - 52"
proof -
  have "(0::real) < 2 powi k" by simp
  then have x: "0 < \<bar>x\<bar>" using assms(1) by linarith
  then have "\<lfloor>log 2 \<bar>x\<bar>\<rfloor> = k" using assms floor_log2_eq_iff[of "\<bar>x\<bar>" k] by simp
  moreover have "x \<noteq> 0" using x by simp
  ultimately show ?thesis by (simp add: ulp_exponent_alt)
qed

lemma round_double_0: "round_double 0 = 0"
  by (simp add: round_double_def)

lemma round_double_uminus: "round_double (- x) = - round_double x"
  by (simp add: round_double_def ulp_exponent_uminus round_half_even_uminus)

lemma round_double_nonneg: assumes "0 \<le> x" shows "0 \<le> round_double x"
proof -
  have "0 \<le> x / 2 powi ulp_exponent x" using assms by simp
  then have "round_half_even 0 \<le> round_half_even (x / 2 powi ulp_exponent x)"
    by (rule round_half_even_mono)
  then have "0 \<le> round_half_even (x / 2 powi ulp_exponent x)"
    using round_half_even_of_int[of 0] by simp
  then show ?thesis by (simp add: round_double_def)
qed

lemma round_double_upper:
  assumes "0 < x" shows "round_double x \<le> 2 powi (ulp_exponent x + 53)"
proof -
  let ?e = "ulp_exponent x"
  have "x < 2 powi (?e + 53)" using ulp_exponent_upper[of x] assms by simp
  also have "\<dots> = 2 ^ 53 * 2 powi ?e" by (simp add: power_int_add)
  finally have "x / 2 powi ?e \<le> of_int (2 ^ 53)" by (simp add: field_simps)
  then have "round_half_even (x / 2 powi ?e) \<le> round_half_even (of_int (2 ^ 53))"
    by (rule round_half_even_mono)
  then have "round_half_even (x / 2 powi ?e) \<le> 2 ^ 53" by (simp only: round_half_even_of_int)
  then have "real_of_int (round_half_even (x / 2 powi ?e)) \<le> 2 ^ 53" 
    by (metis of_int_le_iff of_int_numeral of_int_power)
  then have "real_of_int (round_half_even (x / 2 powi ?e)) * 2 powi ?e \<le> 2 ^ 53 * 2 powi ?e"
    by (intro mult_right_mono) simp_all
  then show ?thesis using assms by (simp add: round_double_def power_int_add)
qed

lemma round_double_lower:
  assumes "0 < x" "- 1074 < ulp_exponent x" shows "2 powi (ulp_exponent x + 52) \<le> round_double x"
proof -
  let ?e = "ulp_exponent x"
  have "2 powi (?e + 52) \<le> x" using ulp_exponent_lower[of x] assms by simp
  moreover have "(2::real) powi (?e + 52) = 2 ^ 52 * 2 powi ?e" by (simp add: power_int_add)
  ultimately have "of_int (2 ^ 52) \<le> x / 2 powi ?e" by (simp add: field_simps)
  then have "round_half_even (of_int (2 ^ 52)) \<le> round_half_even (x / 2 powi ?e)"
    by (rule round_half_even_mono)
  then have "2 ^ 52 \<le> round_half_even (x / 2 powi ?e)" by (simp only: round_half_even_of_int)
  then have "2 ^ 52 \<le> real_of_int (round_half_even (x / 2 powi ?e))"
    by (metis of_int_le_iff of_int_numeral of_int_power)
  then have "2 ^ 52 * 2 powi ?e \<le> real_of_int (round_half_even (x / 2 powi ?e)) * 2 powi ?e"
    by (intro mult_right_mono) simp_all
  then show ?thesis using assms by (simp add: round_double_def power_int_add)
qed

subsection \<open>Rounding is monotone and fixes the binary64 numbers\<close>

text \<open>
  \<open>round_double\<close> is monotone, and it is the identity on every \<open>m * 2 powi e\<close> with
  \<open>\<bar>m\<bar> \<le> 2 ^ 53\<close> and \<open>e \<ge> - 1074\<close>: the integers up to \<open>2 ^ 53\<close> and the powers
  of two among them.
\<close>

lemma round_double_mono_pos:
  assumes "0 < x" "x \<le> y" shows "round_double x \<le> round_double y"
proof -
  have le: "ulp_exponent x \<le> ulp_exponent y" using assms by (intro ulp_exponent_mono) simp_all
  show ?thesis
  proof (cases "ulp_exponent x = ulp_exponent y")
    case True
    let ?e = "ulp_exponent y"
    have "x / 2 powi ?e \<le> y / 2 powi ?e" using assms by (simp add: divide_right_mono)
    then have "round_half_even (x / 2 powi ?e) \<le> round_half_even (y / 2 powi ?e)"
      by (rule round_half_even_mono)
    then have "real_of_int (round_half_even (x / 2 powi ?e)) * 2 powi ?e
        \<le> real_of_int (round_half_even (y / 2 powi ?e)) * 2 powi ?e"
      by (intro mult_right_mono) simp_all
    then show ?thesis using assms True by (simp add: round_double_def)
  next
    case False
    with le have lt: "ulp_exponent x + 53 \<le> ulp_exponent y + 52" by simp
    have "- 1074 < ulp_exponent y" using lt ulp_exponent_ge[of x] by simp
    then have "2 powi (ulp_exponent y + 52) \<le> round_double y"
      using assms by (intro round_double_lower) simp_all
    moreover have "round_double x \<le> 2 powi (ulp_exponent x + 53)"
      using assms by (intro round_double_upper) simp_all
    moreover have "(2::real) powi (ulp_exponent x + 53) \<le> 2 powi (ulp_exponent y + 52)"
      using lt by (intro power_int_increasing) simp_all
    ultimately show ?thesis by linarith
  qed
qed

lemma round_double_mono:
  assumes "x \<le> y" shows "round_double x \<le> round_double y"
proof -
  consider "0 < x" | "x = 0" | "x < 0" "y < 0" | "x < 0" "0 \<le> y" by linarith
  then show ?thesis
  proof cases
    case 1
    then show ?thesis using assms by (rule round_double_mono_pos)
  next
    case 2
    then show ?thesis using assms round_double_nonneg[of y] by (simp add: round_double_0)
  next
    case 3
    then have "round_double (- y) \<le> round_double (- x)"
      using assms by (intro round_double_mono_pos) simp_all
    then show ?thesis by (simp add: round_double_uminus)
  next
    case 4
    have "0 \<le> round_double (- x)" using 4 by (intro round_double_nonneg) simp
    then have "round_double x \<le> 0" by (simp add: round_double_uminus)
    then show ?thesis using round_double_nonneg[of y] 4 by linarith
  qed
qed

lemma round_double_exact_aux:
  assumes e: "- 1074 \<le> e" and m: "\<bar>m\<bar> < 2 ^ 53"
  shows "round_double (of_int m * 2 powi e) = of_int m * 2 powi e"
proof (cases "m = 0")
  case True
  then show ?thesis by (simp add: round_double_0)
next
  case False
  define x where "x = real_of_int m * 2 powi e"
  define u where "u = ulp_exponent x"
  have x0: "x \<noteq> 0" using False by (simp add: x_def)
  have "real_of_int \<bar>m\<bar> < 2 ^ 53" using m by (metis of_int_less_iff of_int_numeral of_int_power)
  then have "\<bar>x\<bar> < 2 ^ 53 * 2 powi e" by (simp add: abs_mult x_def)
  then have ub: "\<bar>x\<bar> < 2 powi (e + 53)" by (simp add: power_int_add)
  have ue: "u \<le> e"
  proof (rule ccontr)
    assume "\<not> u \<le> e"
    then have lt: "e + 1 \<le> u" by simp
    then have "- 1074 < ulp_exponent x" using e by (simp add: u_def)
    then have "2 powi (u + 52) \<le> \<bar>x\<bar>" unfolding u_def using x0 by (intro ulp_exponent_lower)
    moreover have "(2::real) powi (e + 53) \<le> 2 powi (u + 52)"
      using lt by (intro power_int_increasing) simp_all
    ultimately show False using ub by linarith
  qed
  define d where "d = nat (e - u)"
  have de: "e = u + int d" using ue by (simp add: d_def)
  have pw: "(2::real) powi e = 2 powi u * 2 ^ d"
    by (subst de) (simp add: power_int_add)
  have "x / 2 powi u = of_int (m * 2 ^ d)" by (simp add: x_def pw)
  then have "round_half_even (x / 2 powi u) = m * 2 ^ d"
    by (simp only: round_half_even_of_int)
  then have "round_double x = of_int (m * 2 ^ d) * 2 powi u"
    using x0 by (simp add: round_double_def u_def)
  also have "\<dots> = x" by (simp add: x_def pw)
  finally show ?thesis by (simp add: x_def)
qed

lemma round_double_exact:
  assumes e: "- 1074 \<le> e" and m: "\<bar>m\<bar> \<le> 2 ^ 53"
  shows "round_double (of_int m * 2 powi e) = of_int m * 2 powi e"
proof (cases "\<bar>m\<bar> = 2 ^ 53")
  case False
  then show ?thesis using assms by (intro round_double_exact_aux) simp_all
next
  case True
  then have m2: "m = 2 ^ 53 \<or> m = - (2 ^ 53)" by linarith
  then have eq: "real_of_int m * 2 powi e = real_of_int (m div 2) * 2 powi (e + 1)"
    by (auto simp: power_int_add)
  have "\<bar>m div 2\<bar> < 2 ^ 53" using m2 by auto
  then show ?thesis unfolding eq using e by (intro round_double_exact_aux) simp_all
qed

lemma round_double_of_int:
  assumes "\<bar>k\<bar> \<le> 2 ^ 53" shows "round_double (of_int k) = of_int k"
  using round_double_exact[of 0 k] assms by simp

lemma round_double_powi:
  assumes "- 1074 \<le> k" shows "round_double (2 powi k) = 2 powi k"
  using round_double_exact[of k 1] assms by simp

subsection \<open>Evaluating a rounding; int division\<close>

text \<open>
  The rounding of a number whose binade is known, and the two outcomes of
  \<open>int_true_div\<close>: the rounded quotient while the exact one is at most \<open>2 ^ 1023\<close> in
  absolute value, OverflowError from \<open>2 ^ 1024\<close> on.
\<close>

lemma round_double_eval:
  assumes "2 powi k \<le> \<bar>x\<bar>" "\<bar>x\<bar> < 2 powi (k + 1)" "e = max k (- 1022) - 52"
  shows "round_double x = of_int (round_half_even (x / 2 powi e)) * 2 powi e"
proof -
  have "(0::real) < 2 powi k" by simp
  then have "0 < \<bar>x\<bar>" using assms(1) by linarith
  then have "x \<noteq> 0" by simp
  then show ?thesis using ulp_exponent_eq[OF assms(1,2)] assms(3) by (simp add: round_double_def)
qed

lemma int_true_div_returns:
  assumes "b \<noteq> 0" "\<bar>real_of_int a / real_of_int b\<bar> \<le> 2 ^ 1023"
  shows "int_true_div a b = Inr (round_double (of_int a / of_int b))"
proof -
  let ?x = "real_of_int a / real_of_int b"
  have p: "round_double (2 ^ 1023) = 2 ^ 1023" using round_double_powi[of 1023] by simp
  have "round_double ?x \<le> round_double (2 ^ 1023)" using assms(2) by (intro round_double_mono) linarith
  moreover have "round_double (- (2 ^ 1023)) \<le> round_double ?x"
    using assms(2) by (intro round_double_mono) linarith
  ultimately have "\<bar>round_double ?x\<bar> \<le> 2 ^ 1023" using p by (simp add: round_double_uminus abs_le_iff)
  moreover have "(2::real) ^ 1023 < 2 ^ 1024" by simp
  ultimately have "\<not> 2 ^ 1024 \<le> \<bar>round_double ?x\<bar>" by linarith
  then show ?thesis using assms(1) by (simp add: int_true_div_def Let_def)
qed

lemma int_true_div_overflow:
  assumes "b \<noteq> 0" "2 ^ 1024 \<le> real_of_int a / real_of_int b"
  shows "int_true_div a b = Inl OverflowError"
proof -
  let ?x = "real_of_int a / real_of_int b"
  have p: "round_double (2 ^ 1024) = 2 ^ 1024" using round_double_powi[of 1024] by simp
  have "round_double (2 ^ 1024) \<le> round_double ?x" using assms(2) by (rule round_double_mono)
  then have "2 ^ 1024 \<le> \<bar>round_double ?x\<bar>" using p by linarith
  then show ?thesis using assms(1) by (simp add: int_true_div_def Let_def)
qed

subsection \<open>Ceilings that survive the rounding\<close>

text \<open>
  The ceiling of a rounded number is the ceiling of the number as long as the rounding
  cannot reach the integer below: a binary64 number lies between that integer and the
  number, or the number is more than half a unit in the last place above it. A multiple
  of \<open>1 / 1000\<close> up to \<open>2 ^ 44\<close> is such a number. The logarithm of \<open>2 ^ j + 1\<close> exceeds
  \<open>j\<close> by more than \<open>1 / 2 ^ j\<close>.
\<close>

lemma ceiling_round_double:
  assumes j: "0 \<le> j" and fit: "(j + 1) * 2 ^ p \<le> 2 ^ 53" and p: "p \<le> 1074"
    and lo: "of_int j + 1 / 2 ^ p \<le> x" and hi: "x \<le> of_int j + 1"
  shows "\<lceil>round_double x\<rceil> = j + 1"
proof -
  define w where "w = real_of_int (j * 2 ^ p + 1) * 2 powi (- int p)"
  have "j * 2 ^ p + 1 \<le> (j + 1) * 2 ^ p" by (simp add: algebra_simps)
  then have "\<bar>j * 2 ^ p + 1\<bar> \<le> 2 ^ 53" using fit j by simp
  then have "round_double w = w" unfolding w_def using p by (intro round_double_exact) simp_all
  moreover have w: "w = of_int j + 1 / 2 ^ p"
    by (simp add: w_def power_int_minus field_simps)
  ultimately have "of_int j + 1 / 2 ^ p \<le> round_double x"
    using round_double_mono[of w x] lo by simp
  moreover have "(0::real) < 1 / 2 ^ p" by simp
  ultimately have "real_of_int j < round_double x" by linarith
  then have 1: "of_int (j + 1) - 1 < round_double x" by simp
  have "(j + 1) * 1 \<le> (j + 1) * 2 ^ p" using j by (intro mult_left_mono) simp_all
  then have "(j + 1) * 1 \<le> 2 ^ 53" using fit by (rule order_trans)
  then have "\<bar>j + 1\<bar> \<le> 2 ^ 53" using j by simp
  then have "round_double (of_int (j + 1)) = of_int (j + 1)" by (rule round_double_of_int)
  then have 2: "round_double x \<le> of_int (j + 1)"
    using round_double_mono[of x "of_int (j + 1)"] hi by simp
  show ?thesis using 1 2 by (rule ceiling_unique)
qed

lemma log2_succ_power_gt:
  assumes "0 < j" shows "real j + 1 / 2 ^ j < log 2 (2 ^ j + 1)"
proof -
  define x :: real where "x = 1 / 2 ^ j"
  define N :: nat where "N = 2 ^ j - 1"
  have x: "0 < x" by (simp add: x_def)
  have "(2::nat) ^ 1 \<le> 2 ^ j" using assms by (intro power_increasing) simp_all
  then have N: "Suc N = 2 ^ j" "0 < N" by (simp_all add: N_def)
  have Nx: "real (Suc N) * x = 1" unfolding N(1) by (simp add: x_def)
  have "1 + real N * x \<le> (1 + x) ^ N"
    by (rule Bernoulli_inequality) (use x in simp)
  then have "(1 + x) * (1 + real N * x) \<le> (1 + x) * (1 + x) ^ N"
    using x by (intro mult_left_mono) simp_all
  moreover have "(1 + x) * (1 + real N * x) = 1 + real (Suc N) * x + real N * x * x"
    by (simp add: algebra_simps)
  moreover have "0 < real N * x * x" using x N(2) by simp
  ultimately have "2 < (1 + x) * (1 + x) ^ N" using Nx by simp
  also have "\<dots> = (1 + x) ^ (2 ^ j)" unfolding N(1)[symmetric] by simp
  finally have "log 2 2 < log 2 ((1 + x) ^ (2 ^ j))" using x by (subst log_less_cancel_iff) simp_all
  moreover have "log 2 ((1 + x) ^ (2 ^ j)) = real (2 ^ j) * log 2 (1 + x)"
    using x by (intro log_nat_power) simp
  ultimately have "1 < real (2 ^ j) * log 2 (1 + x)" by simp
  then have "x < log 2 (1 + x)" by (simp add: x_def field_simps)
  moreover have "(2::real) ^ j + 1 = 2 ^ j * (1 + x)" by (simp add: x_def field_simps)
  then have "log 2 (2 ^ j + 1) = real j + log 2 (1 + x)"
    using x by (simp add: log_mult)
  ultimately show ?thesis by (simp add: x_def)
qed

lemma ceiling_round_double_div_1000:
  assumes "0 \<le> s" "s \<le> 1000 * 2 ^ 44"
  shows "\<lceil>round_double (real_of_int s / 1000)\<rceil> = \<lceil>real_of_int s / 1000\<rceil>"
proof (cases "s mod 1000 = 0")
  case True
  then obtain q where q: "s = 1000 * q" by auto
  have "\<bar>q\<bar> \<le> 2 ^ 53" using assms q by simp
  then have "round_double (of_int q) = of_int q" by (rule round_double_of_int)
  then show ?thesis by (simp add: q)
next
  case False
  define q where "q = s div 1000"
  define r where "r = s mod 1000"
  define x where "x = real_of_int s / 1000"
  have s: "s = 1000 * q + r" by (simp add: q_def r_def)
  have "0 \<le> s mod 1000" "s mod 1000 < 1000" by simp_all
  then have r: "1 \<le> r" "r < 1000" using False unfolding r_def by linarith+
  have q0: "0 \<le> q" using assms by (simp add: q_def pos_imp_zdiv_nonneg_iff)
  have q44: "q < 2 ^ 44" using assms(2) s r by simp
  have x: "x = of_int q + of_int r / 1000" by (simp add: s x_def)
  have hi: "x \<le> of_int q + 1" using r by (simp add: x)
  have up: "round_double x \<le> of_int (q + 1)"
  proof -
    have "\<bar>q + 1\<bar> \<le> 2 ^ 53" using q0 q44 by simp
    then have "round_double (of_int (q + 1)) = of_int (q + 1)" by (rule round_double_of_int)
    then show ?thesis using round_double_mono[of x "of_int (q + 1)"] hi by simp
  qed
  have low: "of_int (q + 1) - 1 < round_double x"
  proof (cases "q < 2 ^ 43")
    case True
    have fit: "(q + 1) * 2 ^ 10 \<le> 2 ^ 53" using True by simp
    have lo: "of_int q + 1 / 2 ^ 10 \<le> x" using r by (simp add: x)
    have "\<lceil>round_double x\<rceil> = q + 1"
      using q0 fit _ lo hi by (rule ceiling_round_double) simp
    then show ?thesis by (simp add: ceiling_eq_iff)
  next
    case False
    then have q43: "2 ^ 43 \<le> q" by simp
    have "real_of_int (2 ^ 43) \<le> real_of_int q" using q43 by (simp only: of_int_le_iff)
    then have x43: "2 ^ 43 \<le> x" using r by (simp add: x)
    have "q + 1 \<le> 2 ^ 44" using q44 by simp
    then have "real_of_int (q + 1) \<le> real_of_int (2 ^ 44)" by (simp only: of_int_le_iff)
    then have x44: "x < 2 ^ 44" using r by (simp add: x)
    have x0: "0 < x" using x43 by simp
    have rd: "round_double x = of_int (round_half_even (x / 2 powi (- 9))) * 2 powi (- 9)"
      by (rule round_double_eval[where k = 43]) (use x43 x44 x0 in simp_all)
    have "x / 2 powi (- 9) = of_int (512 * q) + of_int r * (512 / 1000)"
      by (simp add: x power_int_minus field_simps)
    moreover have "(1::real) / 2 < of_int r * (512 / 1000)" using r by simp
    ultimately have "of_int (512 * q) + 1 / 2 < x / 2 powi (- 9)" by linarith
    then have "512 * q + 1 \<le> round_half_even (x / 2 powi (- 9))" by (rule round_half_even_ge)
    then have "real_of_int (512 * q + 1) \<le> real_of_int (round_half_even (x / 2 powi (- 9)))"
      by (simp only: of_int_le_iff)
    then have "real_of_int (512 * q + 1) * 2 powi (- 9) \<le> round_double x"
      unfolding rd by (intro mult_right_mono) simp_all
    moreover have "real_of_int (512 * q + 1) * 2 powi (- 9) = of_int q + 1 / 512"
      by (simp add: power_int_minus field_simps)
    ultimately show ?thesis by simp
  qed
  have "\<lceil>round_double x\<rceil> = q + 1" using low up by (rule ceiling_unique)
  moreover have "\<lceil>x\<rceil> = q + 1"
    by (rule ceiling_unique) (use r in \<open>simp_all add: x\<close>)
  ultimately show ?thesis by (simp add: x_def)
qed

section \<open>The logarithm\<close>

subsection \<open>Binary64 numbers and the contract of the C library's logarithm\<close>

text \<open>
  Rounding errs by at most half a unit in the last place and leaves its own results
  unchanged; the least positive binary64 number is \<open>2 powi - 1074\<close>; and the binary64
  number next above a positive one lies a unit in the last place above it. The
  correctly rounded logarithm meets the contract of \<open>libm_log2\<close>, so that the contract
  can be met, and \<open>libm_log2\<close> meets it. Nothing else is known of \<open>libm_log2\<close>.
\<close>

lemma round_half_even_error: "\<bar>real_of_int (round_half_even x) - x\<bar> \<le> 1 / 2"
proof -
  have "of_int \<lfloor>x\<rfloor> \<le> x" "x < of_int \<lfloor>x\<rfloor> + 1" by linarith+
  then show ?thesis by (auto simp: round_half_even_def Let_def)
qed

lemma round_double_error: "\<bar>round_double x - x\<bar> \<le> 2 powi ulp_exponent x / 2"
proof (cases "x = 0")
  case True
  then show ?thesis by (simp add: round_double_0)
next
  case False
  define u where "u = (2::real) powi ulp_exponent x"
  define m where "m = real_of_int (round_half_even (x / u))"
  have u: "0 < u" by (simp add: u_def)
  have "\<bar>m - x / u\<bar> \<le> 1 / 2" unfolding m_def by (rule round_half_even_error)
  then have "\<bar>m - x / u\<bar> * u \<le> 1 / 2 * u" using u by (intro mult_right_mono) simp_all
  moreover have "\<bar>m - x / u\<bar> * u = \<bar>(m - x / u) * u\<bar>" using u by (simp add: abs_mult)
  moreover have "(m - x / u) * u = m * u - x" using u by (simp add: field_simps)
  ultimately have "\<bar>m * u - x\<bar> \<le> u / 2" by simp
  moreover have "round_double x = m * u" using False by (simp add: round_double_def m_def u_def)
  ultimately show ?thesis by (simp add: u_def)
qed

lemma round_double_idem: "round_double (round_double x) = round_double x"
proof (cases "x = 0")
  case True
  then show ?thesis by (simp add: round_double_0)
next
  case False
  define e where "e = ulp_exponent x"
  define m where "m = round_half_even (x / 2 powi e)"
  have rd: "round_double x = of_int m * 2 powi e"
    using False by (simp add: round_double_def m_def e_def)
  have "\<bar>x\<bar> < 2 powi (e + 53)" unfolding e_def using False by (rule ulp_exponent_upper)
  also have "\<dots> = 2 ^ 53 * 2 powi e" by (simp add: power_int_add)
  finally have "\<bar>x\<bar> / 2 powi e < 2 ^ 53" by (simp add: field_simps)
  then have "\<bar>x / 2 powi e\<bar> < 2 ^ 53" by simp
  then have "- (2 ^ 53) \<le> x / 2 powi e" "x / 2 powi e \<le> 2 ^ 53" by linarith+
  then have b: "of_int (- (2 ^ 53)) \<le> x / 2 powi e" "x / 2 powi e \<le> of_int (2 ^ 53)" by simp_all
  have "round_half_even (of_int (- (2 ^ 53))) \<le> m" unfolding m_def using b(1)
    by (rule round_half_even_mono)
  moreover have "m \<le> round_half_even (of_int (2 ^ 53))" unfolding m_def using b(2)
    by (rule round_half_even_mono)
  ultimately have "- (2 ^ 53) \<le> m" "m \<le> 2 ^ 53" by (simp_all only: round_half_even_of_int)
  then have "\<bar>m\<bar> \<le> 2 ^ 53" by simp
  moreover have "- 1074 \<le> e" unfolding e_def by (rule ulp_exponent_ge)
  ultimately show ?thesis unfolding rd by (intro round_double_exact)
qed

lemma double_pos_ge:
  assumes "0 < x" "round_double x = x" shows "2 powi (- 1074) \<le> x"
proof -
  define e where "e = ulp_exponent x"
  define m where "m = round_half_even (x / 2 powi e)"
  have x: "x = of_int m * 2 powi e"
    using assms by (simp add: round_double_def m_def e_def split: if_splits)
  have "0 < real_of_int m * 2 powi e" using assms(1) x by simp
  moreover have "(0::real) < 2 powi e" by simp
  ultimately have "0 < real_of_int m" by (rule zero_less_mult_pos2)
  then have "1 \<le> m" by simp
  then have "1 \<le> real_of_int m" by simp
  then have "1 * 2 powi e \<le> real_of_int m * 2 powi e" by (intro mult_right_mono) simp_all
  then have "2 powi e \<le> x" unfolding x[symmetric] by simp
  moreover have "(2::real) powi (- 1074) \<le> 2 powi e"
    unfolding e_def using ulp_exponent_ge by (intro power_int_increasing) simp_all
  ultimately show ?thesis by (rule order_trans[rotated])
qed

lemma double_above:
  assumes v: "round_double v = v" and J: "round_double J = J" and J0: "0 < J" and Jv: "J < v"
  shows "J + 2 powi ulp_exponent J \<le> v"
proof -
  define e where "e = ulp_exponent J"
  define e' where "e' = ulp_exponent v"
  define m where "m = round_half_even (J / 2 powi e)"
  define m' where "m' = round_half_even (v / 2 powi e')"
  have ee: "e \<le> e'" unfolding e_def e'_def using J0 Jv by (intro ulp_exponent_mono) simp_all
  define d where "d = nat (e' - e)"
  have de: "e' = e + int d" using ee by (simp add: d_def)
  have pw: "(2::real) powi e' = 2 ^ d * 2 powi e" by (subst de) (simp add: power_int_add)
  have Jm: "J = of_int m * 2 powi e"
    using J J0 by (simp add: round_double_def m_def e_def split: if_splits)
  have "v \<noteq> 0" using J0 Jv by simp
  then have "v = of_int m' * 2 powi e'"
    using v by (simp add: round_double_def m'_def e'_def)
  define M where "M = m' * 2 ^ d"
  define u where "u = (2::real) powi e"
  have u: "0 < u" by (simp add: u_def)
  have vm: "v = of_int M * u" using \<open>v = of_int m' * 2 powi e'\<close> by (simp add: pw M_def u_def)
  have Ju: "J = of_int m * u" using Jm by (simp add: u_def)
  have "real_of_int m * u < real_of_int M * u" using Jv Ju vm by simp
  then have "real_of_int m < real_of_int M" using u by (simp add: mult_less_cancel_right_pos)
  then have "m < M" by (simp only: of_int_less_iff)
  then have "m + 1 \<le> M" by simp
  then have "real_of_int (m + 1) \<le> real_of_int M" by (simp only: of_int_le_iff)
  then have "real_of_int (m + 1) * u \<le> real_of_int M * u"
    using u by (intro mult_right_mono) simp_all
  moreover have "real_of_int (m + 1) * u = J + u" by (simp add: Ju algebra_simps)
  ultimately have "J + u \<le> v" unfolding vm by (simp only:)
  then show ?thesis by (simp add: u_def e_def)
qed

lemma log2_powi: "log 2 (2 powi k) = of_int k"
proof -
  have "(2::real) powi k = 2 powr (of_int k)" by (simp add: powr_real_of_int')
  then show ?thesis by simp
qed

lemma is_double_of_int:
  assumes "\<bar>k\<bar> \<le> 2 ^ 53" shows "is_double (of_int k)"
proof -
  have "real_of_int \<bar>k\<bar> \<le> 2 ^ 53" using assms by (metis of_int_le_iff of_int_numeral of_int_power)
  moreover have "(2::real) ^ 53 < 2 ^ 1024" by simp
  ultimately have "\<bar>real_of_int k\<bar> < 2 ^ 1024" by simp
  then show ?thesis using round_double_of_int[OF assms] by (simp add: is_double_def)
qed

lemma rounded_log2_contract: "libm_log2_contract (\<lambda>x. round_double (log 2 x))"
  unfolding libm_log2_contract_def
proof (intro conjI allI impI)
  fix x :: real assume a: "0 < x \<and> is_double x"
  define t where "t = log 2 x"
  have "2 powi (- 1074) \<le> x" using a by (intro double_pos_ge) (simp_all add: is_double_def)
  then have "log 2 (2 powi (- 1074)) \<le> t" unfolding t_def by (intro log_mono) simp_all
  then have lo: "of_int (- 1074) \<le> t" by (simp only: log2_powi)
  have "\<bar>x\<bar> < 2 ^ 1024" using a unfolding is_double_def by blast
  then have "x \<le> 2 ^ 1024" by linarith
  moreover have "(2::real) powi 1024 = 2 ^ 1024" by simp
  ultimately have "x \<le> 2 powi 1024" by (simp only:)
  then have "t \<le> log 2 (2 powi 1024)" unfolding t_def using a by (intro log_mono) simp_all
  then have hi: "t \<le> of_int 1024" by (simp only: log2_powi)
  have "round_double (of_int (- 1074)) \<le> round_double t" using lo by (rule round_double_mono)
  moreover have "round_double t \<le> round_double (of_int 1024)" using hi by (rule round_double_mono)
  moreover have "round_double (of_int (- 1074)) = of_int (- 1074)" by (rule round_double_of_int) simp
  moreover have "round_double (of_int 1024) = of_int 1024" by (rule round_double_of_int) simp
  ultimately have "\<bar>round_double t\<bar> \<le> 1074" by simp
  moreover have "(1074::real) < 2 ^ 1024" by simp
  ultimately have "\<bar>round_double t\<bar> < 2 ^ 1024" by (rule le_less_trans)
  then show "is_double (round_double (log 2 x))"
    by (simp add: is_double_def round_double_idem t_def)
  have "\<bar>round_double t - t\<bar> \<le> 2 powi ulp_exponent t / 2" by (rule round_double_error)
  moreover have "(0::real) < 2 powi ulp_exponent t" by simp
  ultimately show "\<bar>round_double (log 2 x) - log 2 x\<bar> \<le> 2 * 2 powi ulp_exponent (log 2 x)"
    unfolding t_def by linarith
next
  fix k :: int assume k: "- 1074 \<le> k \<and> k \<le> 1023"
  then have "\<bar>k\<bar> \<le> 1074" by linarith
  then have "\<bar>k\<bar> \<le> 2 ^ 53" by simp
  then have "round_double (of_int k) = of_int k" by (rule round_double_of_int)
  then show "round_double (log 2 (2 powi k)) = of_int k" by (simp only: log2_powi)
qed

lemma libm_log2_meets_contract: "libm_log2_contract libm_log2"
  unfolding libm_log2_def by (rule someI[of _ "\<lambda>x. round_double (log 2 x)"]) (rule rounded_log2_contract)

lemma libm_log2_double:
  assumes "0 < x" "is_double x" shows "round_double (libm_log2 x) = libm_log2 x"
  using libm_log2_meets_contract assms by (simp add: libm_log2_contract_def is_double_def)

lemma libm_log2_error:
  assumes "0 < x" "is_double x"
  shows "\<bar>libm_log2 x - log 2 x\<bar> \<le> 2 * 2 powi ulp_exponent (log 2 x)"
  using libm_log2_meets_contract assms by (simp add: libm_log2_contract_def)

lemma libm_log2_powi:
  assumes "- 1074 \<le> k" "k \<le> 1023" shows "libm_log2 (2 powi k) = of_int k"
  using libm_log2_meets_contract assms by (simp add: libm_log2_contract_def)

lemma libm_log2_2: "libm_log2 2 = 1"
  using libm_log2_powi[of 1] by simp

lemma libm_log2_half: "libm_log2 (1 / 2) = - 1"
  using libm_log2_powi[of "- 1"] by (simp add: power_int_minus)

lemma libm_log2_power:
  assumes "k \<le> 1023" shows "libm_log2 (2 ^ k) = real k"
  using libm_log2_powi[of "int k"] assms by simp

subsection \<open>The ceiling of the library's logarithm\<close>

text \<open>
  Within the range of the binary64 numbers the library's logarithm is within \<open>1 / 2\<close>
  of the exact one. For an int \<open>n\<close> up to \<open>2 ^ 47\<close> its ceiling is the ceiling of the exact
  logarithm: between \<open>2 ^ j\<close> and \<open>2 ^ (j + 1)\<close> the exact logarithm is more than
  \<open>1 / 2 ^ j\<close> above \<open>j\<close> and more than \<open>1 / 2 ^ (j + 1)\<close> below \<open>j + 1\<close>, which two units
  in the last place, \<open>1 / 2 ^ 46\<close> at most, cannot bridge.
\<close>

lemma ulp_exponent_small:
  assumes "\<bar>t\<bar> \<le> 2 ^ k" "k \<le> 1000" shows "ulp_exponent t \<le> int k - 52"
proof (cases "t = 0")
  case True
  then show ?thesis by (simp add: ulp_exponent_def floor_log2_def bitlen_def)
next
  case False
  have "ulp_exponent t \<le> ulp_exponent (2 ^ k)" using False assms(1) by (intro ulp_exponent_mono) simp_all
  moreover have "ulp_exponent (2 ^ k) = max (int k) (- 1022) - 52"
    by (rule ulp_exponent_eq) (simp_all add: power_int_add)
  ultimately show ?thesis by simp
qed

lemma libm_log2_near:
  assumes "1 / 2 \<le> x" "is_double x"
  shows "\<bar>libm_log2 x - log 2 x\<bar> \<le> 1 / 2"
proof -
  define t where "t = log 2 x"
  have x0: "0 < x" using assms(1) by simp
  have "log 2 (1 / 2) \<le> t" unfolding t_def using assms(1) by (intro log_mono) simp_all
  then have lo: "- 1 \<le> t" by (simp add: log_divide)
  have "\<bar>x\<bar> < 2 ^ 1024" using assms(2) unfolding is_double_def by blast
  then have "x \<le> 2 ^ 1024" by linarith
  then have "t \<le> log 2 (2 ^ 1024)" unfolding t_def using x0 by (intro log_mono) simp_all
  moreover have "log 2 ((2::real) ^ 1024) = real 1024" by (rule log_pow_cancel) simp_all
  ultimately have hi: "t \<le> 1024" by simp
  have "\<bar>t\<bar> \<le> 2 ^ 10" using lo hi by simp
  then have "ulp_exponent t \<le> int 10 - 52" by (rule ulp_exponent_small) simp
  then have "(2::real) powi ulp_exponent t \<le> 2 powi (- 42)"
    by (intro power_int_increasing) simp_all
  moreover have "(2::real) powi (- 42) \<le> 1 / 4" by (simp add: power_int_minus)
  moreover have "\<bar>libm_log2 x - t\<bar> \<le> 2 * 2 powi ulp_exponent t"
    unfolding t_def using x0 assms(2) by (rule libm_log2_error)
  ultimately show ?thesis unfolding t_def by linarith
qed

lemma log2_pred_power_lt:
  assumes "0 < j" shows "log 2 (2 ^ j - 1) < real j - 1 / 2 ^ j"
proof -
  define x :: real where "x = 1 / 2 ^ j"
  have "(2::real) ^ 1 \<le> 2 ^ j" using assms by (intro power_increasing) simp_all
  then have x: "0 < x" "x \<le> 1 / 2" by (simp_all add: x_def field_simps)
  have "ln 2 < (1::real)" by (rule ln_2_less_1)
  then have "x * ln 2 < x * 1" using x(1) by (intro mult_strict_left_mono)
  then have "1 - x < 1 + - (x * ln 2)" by simp
  also have "\<dots> \<le> exp (- (x * ln 2))" by (rule exp_ge_add_one_self)
  also have "\<dots> = 2 powr (- x)" by (simp add: powr_def)
  finally have "log 2 (1 - x) < - x" using x by (subst log_less_iff) simp_all
  moreover have "(2::real) ^ j - 1 = 2 ^ j * (1 - x)" by (simp add: x_def field_simps)
  then have "log 2 (2 ^ j - 1) = real j + log 2 (1 - x)"
    using x by (simp add: log_mult)
  ultimately show ?thesis by (simp add: x_def)
qed

lemma ceiling_libm_log2:
  assumes "0 < n" "n \<le> 2 ^ 47"
  shows "\<lceil>libm_log2 (real_of_int n)\<rceil> = \<lceil>log 2 (real_of_int n)\<rceil>"
proof -
  obtain j :: nat where j: "2 ^ j \<le> n" "n < 2 ^ (j + 1)" using assms(1) by (rule floor_log2_int)
  have j47: "j \<le> 47"
  proof (rule power_le_imp_le_exp)
    show "(1::int) < 2" by simp
    show "(2::int) ^ j \<le> 2 ^ 47" using j(1) assms(2) by linarith
  qed
  show ?thesis
  proof (cases "n = 2 ^ j")
    case True
    have "libm_log2 (2 ^ j) = real j" using j47 by (intro libm_log2_power) simp
    then show ?thesis by (simp add: True)
  next
    case False
    with j have n: "2 ^ j + 1 \<le> n" by simp
    have "j \<noteq> 47" using n assms(2) by auto
    with j47 have j46: "j \<le> 46" by simp
    have j1: "0 < j"
    proof (rule ccontr)
      assume "\<not> 0 < j"
      then have "j = 0" by simp
      then show False using n j(2) by simp
    qed
    define x where "x = real_of_int n"
    define t where "t = log 2 x"
    define v where "v = libm_log2 x"
    define J where "J = real (j + 1)"
    have x0: "0 < x" using assms(1) by (simp add: x_def)
    have "\<bar>n\<bar> \<le> 2 ^ 53" using assms by simp
    then have dbl: "is_double x" unfolding x_def by (rule is_double_of_int)
    have "real_of_int (2 ^ j + 1) \<le> x" unfolding x_def using n by (simp only: of_int_le_iff)
    moreover have "(0::real) < 2 ^ j + 1" by (simp add: add_pos_pos)
    ultimately have "log 2 (2 ^ j + 1) \<le> t" unfolding t_def by (intro log_mono) simp_all
    moreover have "real j + 1 / 2 ^ j < log 2 (2 ^ j + 1)" using j1 by (rule log2_succ_power_gt)
    ultimately have tlo: "real j + 1 / 2 ^ j < t" by linarith
    have "n \<le> 2 ^ (j + 1) - 1" using j(2) by simp
    then have "x \<le> real_of_int (2 ^ (j + 1) - 1)" unfolding x_def by (simp only: of_int_le_iff)
    then have "t \<le> log 2 (real_of_int (2 ^ (j + 1) - 1))" unfolding t_def using x0 by (intro log_mono) simp_all
    moreover have "real_of_int (2 ^ (j + 1) - 1) = 2 ^ (j + 1) - 1" by simp
    moreover have "log 2 (2 ^ (j + 1) - 1) < real (j + 1) - 1 / 2 ^ (j + 1)"
      by (rule log2_pred_power_lt) simp
    ultimately have thi: "t < J - 1 / 2 ^ (j + 1)" unfolding J_def by (simp only:)
    have p46: "(1::real) / 2 ^ 46 \<le> 1 / 2 ^ j"
    proof -
      have "(2::real) ^ j \<le> 2 ^ 46" using j46 by (intro power_increasing) simp_all
      then show ?thesis by (intro divide_left_mono) simp_all
    qed
    have p47: "(1::real) / 2 ^ 47 \<le> 1 / 2 ^ (j + 1)"
    proof -
      have "(2::real) ^ (j + 1) \<le> 2 ^ 47" using j46 by (intro power_increasing) simp_all
      then show ?thesis by (intro divide_left_mono) simp_all
    qed
    have J47: "J \<le> 47" using j46 by (simp add: J_def)
    have J1: "1 \<le> J" by (simp add: J_def)
    have t1: "1 < t"
    proof -
      have "1 \<le> real j" using j1 by simp
      moreover have "(0::real) < 1 / 2 ^ j" by simp
      ultimately show ?thesis using tlo by linarith
    qed
    have tJ: "t < J"
    proof -
      have "(0::real) < 1 / 2 ^ (j + 1)" by simp
      then show ?thesis using thi by linarith
    qed
    define w where "w = (2::real) powi ulp_exponent t"
    define u where "u = (2::real) powi ulp_exponent J"
    have "ulp_exponent t \<le> ulp_exponent J" using t1 tJ by (intro ulp_exponent_mono) simp_all
    then have wu: "w \<le> u" unfolding w_def u_def by (intro power_int_increasing) simp_all
    have "\<bar>J\<bar> \<le> 63" using J47 J1 by simp
    then have "ulp_exponent J \<le> ulp_exponent 63" using J1 by (intro ulp_exponent_mono) simp_all
    moreover have "ulp_exponent 63 = max 5 (- 1022) - 52"
      by (rule ulp_exponent_eq) simp_all
    ultimately have "ulp_exponent J \<le> - 47" by simp
    then have "u \<le> 2 powi (- 47)" unfolding u_def by (intro power_int_increasing) simp_all
    moreover have "(2::real) powi (- 47) = 1 / 2 ^ 47" by (simp add: power_int_minus field_simps)
    ultimately have u47: "u \<le> 1 / 2 ^ 47" by simp
    have err: "\<bar>v - t\<bar> \<le> 2 * w" unfolding v_def t_def w_def using x0 dbl by (rule libm_log2_error)
    have two: "2 * (1 / 2 ^ 47) = (1::real) / 2 ^ 46" by simp
    have low: "real j < v"
    proof -
      have "t - 2 * w \<le> v" using err by linarith
      moreover have "2 * w \<le> 1 / 2 ^ 46" using wu u47 two by linarith
      ultimately show ?thesis using tlo p46 by linarith
    qed
    have up: "v \<le> J"
    proof (rule ccontr)
      assume "\<not> v \<le> J"
      then have Jv: "J < v" by simp
      have vd: "round_double v = v" unfolding v_def using x0 dbl by (rule libm_log2_double)
      have "\<bar>int (j + 1)\<bar> \<le> 2 ^ 53" using j46 by simp
      then have "round_double (of_int (int (j + 1))) = of_int (int (j + 1))" by (rule round_double_of_int)
      then have Jd: "round_double J = J" by (simp add: J_def)
      have "0 < J" using J1 by simp
      with vd Jd have "J + 2 powi ulp_exponent J \<le> v" using Jv by (rule double_above)
      then have "J + u \<le> v" by (simp add: u_def)
      moreover have "v \<le> t + 2 * w" using err by linarith
      ultimately have "J - w \<le> t" using wu by linarith
      moreover have "w \<le> 1 / 2 ^ 47" using wu u47 by linarith
      ultimately show False using thi p47 by linarith
    qed
    have "\<lceil>v\<rceil> = int j + 1"
    proof (rule ceiling_unique)
      show "of_int (int j + 1) - 1 < v" using low by simp
      show "v \<le> of_int (int j + 1)" using up by (simp add: J_def)
    qed
    moreover have "\<lceil>t\<rceil> = int j + 1"
    proof (rule ceiling_unique)
      have "(0::real) < 1 / 2 ^ j" by simp
      then have "real j < t" using tlo by linarith
      then show "of_int (int j + 1) - 1 < t" by simp
      show "t \<le> of_int (int j + 1)" using tJ by (simp add: J_def)
    qed
    ultimately show ?thesis by (simp add: v_def t_def x_def)
  qed
qed

subsection \<open>The logarithm of an int\<close>

text \<open>
  An int up to \<open>2 ^ 53\<close> converts to a float exactly. \<open>math_log2\<close> is exact on the powers
  of two, on either of its paths; \<open>long_frexp\<close> splits the rounded int into a binary64
  significand in \<open>[1/2, 1)\<close> and an exponent; and the result of \<open>math_log2\<close> on an int
  from \<open>2 ^ k\<close> on is at least \<open>k - 1/2\<close>.
\<close>

lemma int_to_double_exact:
  assumes "\<bar>n\<bar> \<le> 2 ^ 53" shows "int_to_double n = Inr (of_int n)"
proof -
  have r: "round_double (of_int n) = of_int n" using assms by (rule round_double_of_int)
  have "real_of_int \<bar>n\<bar> \<le> 2 ^ 53" using assms by (metis of_int_le_iff of_int_numeral of_int_power)
  moreover have "(2::real) ^ 53 < 2 ^ 1024" by simp
  ultimately have "\<not> 2 ^ 1024 \<le> \<bar>real_of_int n\<bar>" by simp
  then show ?thesis by (simp add: int_to_double_def r)
qed

lemma math_log2_small:
  assumes "0 < n" "n \<le> 2 ^ 53"
  shows "math_log2 n = Inr (libm_log2 (real_of_int n))"
  using assms int_to_double_exact[of n] by (simp add: math_log2_def)

lemma round_double_power: "round_double (2 ^ k) = 2 ^ k"
  using round_double_powi[of "int k"] by simp

lemma long_frexp_power: "long_frexp (2 ^ k) = (1 / 2, int k + 1)"
proof -
  have fl: "bitlen (2 ^ k) = int k + 1" by (simp add: bitlen_alt_def)
  have "real_of_int (2 ^ k) / 2 powi (int k + 1 - 53) = 2 powi (int k) / 2 powi (int k - 52)"
    by simp
  also have "\<dots> = 2 powi (int k - (int k - 52))" by (simp add: power_int_diff)
  also have "\<dots> = real_of_int (2 ^ 52)" by simp
  finally have "round_half_even (real_of_int (2 ^ k) / 2 powi (int k + 1 - 53)) = 2 ^ 52"
    by (simp only: round_half_even_of_int)
  then show ?thesis unfolding long_frexp_def fl Let_def by simp
qed

lemma math_log2_power:
  assumes "k \<le> 2 ^ 53" shows "math_log2 (2 ^ k) = Inr (real k)"
proof (cases "k < 1024")
  case True
  have "(2::real) ^ k < 2 ^ 1024" using True by (intro power_strict_increasing) simp_all
  then have "int_to_double (2 ^ k) = Inr (2 ^ k)"
    by (simp add: int_to_double_def round_double_power)
  moreover have "libm_log2 (2 ^ k) = real k" using True by (intro libm_log2_power) simp
  ultimately show ?thesis by (simp add: math_log2_def)
next
  case False
  then have "(2::real) ^ 1024 \<le> 2 ^ k" by (intro power_increasing) simp_all
  then have "int_to_double (2 ^ k) = Inl OverflowError"
    by (simp add: int_to_double_def round_double_power)
  moreover have "round_double (real k) = real k"
  proof -
    have "\<bar>int k\<bar> \<le> 2 ^ 53" using assms by (metis abs_of_nat of_nat_le_iff of_nat_numeral of_nat_power)
    then have "round_double (of_int (int k)) = of_int (int k)" by (rule round_double_of_int)
    then show ?thesis by simp
  qed
  ultimately show ?thesis
    by (simp add: math_log2_def long_frexp_power libm_log2_half libm_log2_2)
qed

lemma ulp_exponent_of_pos_int:
  assumes "0 < n" shows "ulp_exponent (real_of_int n) = \<lfloor>log 2 (real_of_int n)\<rfloor> - 52"
proof -
  have "1 \<le> real_of_int n" using assms by simp
  then have "0 \<le> log 2 (real_of_int n)" by simp
  then have f: "- 1022 \<le> \<lfloor>log 2 (real_of_int n)\<rfloor>" by linarith
  have a: "\<bar>real_of_int n\<bar> = real_of_int n" "real_of_int n \<noteq> 0" using assms by simp_all
  show ?thesis unfolding ulp_exponent_alt[OF a(2)] a(1) using f by (simp only: max_absorb1)
qed

lemma long_frexp_round:
  assumes n: "0 < n" and fr: "long_frexp n = (x, e)"
  shows "1 / 2 \<le> x \<and> x < 1 \<and> x * 2 powi e = round_double (of_int n) \<and> is_double x"
proof -
  define u where "u = ulp_exponent (real_of_int n)"
  define r where "r = round_half_even (real_of_int n / 2 powi u)"
  define s where "s = real_of_int r"
  have u: "bitlen n - 53 = u" "bitlen n = u + 53"
    using ulp_exponent_of_pos_int[OF n] bitlen_floor_log2[OF n] by (simp_all add: u_def)
  have rd: "round_double (of_int n) = s * 2 powi u"
    using n by (simp add: round_double_def s_def r_def u_def)
  have p: "(2::real) powi (u + 53) = 2 ^ 53 * 2 powi u" "(2::real) powi (u + 52) = 2 ^ 52 * 2 powi u"
    "(2::real) powi (u + 53 + 1) = 2 ^ 54 * 2 powi u"
    by (simp_all add: power_int_add)
  have "1 \<le> real_of_int n" using n by simp
  then have "0 \<le> log 2 (real_of_int n)" by simp
  then have "0 \<le> \<lfloor>log 2 (real_of_int n)\<rfloor>" by simp
  then have "- 1074 < u" unfolding u_def ulp_exponent_of_pos_int[OF n] by linarith
  then have "2 powi (u + 52) \<le> round_double (of_int n)"
    unfolding u_def using n by (intro round_double_lower) simp_all
  then have lo: "2 ^ 52 \<le> s" by (simp add: rd p)
  have "round_double (of_int n) \<le> 2 powi (u + 53)"
    unfolding u_def using n by (intro round_double_upper) simp_all
  then have hi: "s \<le> 2 ^ 53" by (simp add: rd p)
  have e53: "u + 53 - 53 = u" by simp
  have "long_frexp n = (if s / 2 ^ 53 = 1 then (1 / 2, u + 53 + 1) else (s / 2 ^ 53, u + 53))"
    unfolding long_frexp_def Let_def u(2) e53 s_def r_def by (rule refl)
  then have fr': "(x, e) = (if s / 2 ^ 53 = 1 then (1 / 2, u + 53 + 1) else (s / 2 ^ 53, u + 53))"
    using fr by (simp only:)
  show ?thesis
  proof (cases "s / 2 ^ 53 = 1")
    case True
    then have s53: "s = 2 ^ 53" by simp
    have xe: "x = 1 / 2" "e = u + 53 + 1" using fr' True by simp_all
    have "x * 2 powi e = 1 / 2 * (2 ^ 54 * 2 powi u)" by (simp only: xe p(3))
    also have "\<dots> = s * 2 powi u" by (simp add: s53)
    finally have "x * 2 powi e = round_double (of_int n)" by (simp add: rd)
    moreover have "is_double (1 / 2)"
      using round_double_powi[of "- 1"] by (simp add: is_double_def power_int_minus)
    ultimately show ?thesis by (simp add: xe(1))
  next
    case False
    then have "s \<noteq> 2 ^ 53" by auto
    with hi have s53: "s < 2 ^ 53" by simp
    have xe: "x = s / 2 ^ 53" "e = u + 53" using fr' False by simp_all
    have "x * 2 powi e = s / 2 ^ 53 * (2 ^ 53 * 2 powi u)" by (simp only: xe p(1))
    also have "\<dots> = s * 2 powi u" by simp
    finally have v: "x * 2 powi e = round_double (of_int n)" by (simp add: rd)
    have x1: "1 / 2 \<le> x" "x < 1" using lo s53 by (simp_all add: xe(1))
    have "real_of_int r \<le> real_of_int (2 ^ 53)" "real_of_int 0 \<le> real_of_int r"
      using lo hi by (simp_all add: s_def)
    then have "r \<le> 2 ^ 53" "0 \<le> r" by (simp_all only: of_int_le_iff)
    then have "\<bar>r\<bar> \<le> 2 ^ 53" by simp
    then have "round_double (of_int r * 2 powi (- 53)) = of_int r * 2 powi (- 53)"
      by (intro round_double_exact) simp_all
    moreover have "of_int r * 2 powi (- 53) = x" by (simp add: xe(1) s_def power_int_minus field_simps)
    ultimately have "round_double x = x" by simp
    moreover have "\<bar>x\<bar> < 2 ^ 1024"
    proof -
      have "\<bar>x\<bar> < 1" using x1 by simp
      moreover have "(1::real) < 2 ^ 1024" by simp
      ultimately show ?thesis by (rule less_trans)
    qed
    ultimately have "is_double x" by (simp add: is_double_def)
    then show ?thesis using v x1 by simp
  qed
qed

lemma round_double_pos_int:
  assumes "0 < n" shows "1 \<le> round_double (real_of_int n)"
proof -
  have "round_double 1 \<le> round_double (real_of_int n)" using assms by (intro round_double_mono) simp
  then show ?thesis using round_double_of_int[of 1] by simp
qed

lemma math_log2_direct:
  assumes "0 < n" "round_double (real_of_int n) < 2 ^ 1024"
  shows "math_log2 n = Inr (libm_log2 (round_double (real_of_int n)))"
proof -
  have "\<bar>round_double (real_of_int n)\<bar> < 2 ^ 1024"
    using round_double_pos_int[OF assms(1)] assms(2) by simp
  then have "int_to_double n = Inr (round_double (real_of_int n))"
    by (simp add: int_to_double_def Let_def)
  then show ?thesis using assms(1) by (simp add: math_log2_def)
qed

lemma math_log2_fallback:
  assumes "0 < n" "2 ^ 1024 \<le> round_double (real_of_int n)" "long_frexp n = (x, e)"
  shows "math_log2 n = Inr (round_double (libm_log2 x + of_int e))"
proof -
  have "2 ^ 1024 \<le> \<bar>round_double (real_of_int n)\<bar>" using assms(2) by simp
  then have "int_to_double n = Inl OverflowError"
    by (simp add: int_to_double_def Let_def)
  then show ?thesis using assms(1,3) by (simp add: math_log2_def libm_log2_2)
qed

lemma math_log2_returns:
  assumes "0 < n" shows "\<exists>v. math_log2 n = Inr v"
  using assms by (simp add: math_log2_def split: sum.split prod.split)

lemma long_frexp_exponent:
  assumes n: "0 < n" and big: "2 ^ 1024 \<le> round_double (real_of_int n)" and fr: "long_frexp n = (x, e)"
  shows "1025 \<le> e"
proof (rule ccontr)
  assume "\<not> 1025 \<le> e"
  then have "e \<le> 1024" by simp
  then have "(2::real) powi e \<le> 2 powi 1024" by (intro power_int_increasing) simp_all
  moreover have x: "1 / 2 \<le> x" "x < 1" "x * 2 powi e = round_double (real_of_int n)"
    using long_frexp_round[OF n fr] by simp_all
  moreover have "x * 2 powi e < 1 * 2 powi e" using x(2) by (intro mult_strict_right_mono) simp_all
  ultimately show False using big by simp
qed

lemma is_double_round_int:
  assumes "0 < n" "round_double (real_of_int n) < 2 ^ 1024"
  shows "is_double (round_double (real_of_int n))"
proof -
  have "1 \<le> round_double (real_of_int n)" using assms(1) by (rule round_double_pos_int)
  then have "\<bar>round_double (real_of_int n)\<bar> < 2 ^ 1024" using assms(2) by simp
  then show ?thesis by (simp add: is_double_def round_double_idem)
qed

lemma math_log2_lower:
  assumes k: "k \<le> 1023" and n: "2 ^ k \<le> n" and v: "math_log2 n = Inr v"
  shows "real k - 1 / 2 \<le> v"
proof -
  define N where "N = round_double (real_of_int n)"
  have "(0::int) < 2 ^ k" by simp
  then have n0: "0 < n" using n by linarith
  have "real_of_int (2 ^ k) \<le> real_of_int n" using n by (simp only: of_int_le_iff)
  then have "round_double (real_of_int (2 ^ k)) \<le> N" unfolding N_def by (rule round_double_mono)
  then have Nk: "2 ^ k \<le> N" by (simp add: round_double_power)
  have rk: "real k \<le> 1023" using k by simp
  show ?thesis
  proof (cases "N < 2 ^ 1024")
    case True
    have dbl: "is_double N" unfolding N_def using n0 True[unfolded N_def] by (rule is_double_round_int)
    have N1: "1 \<le> N" unfolding N_def using n0 by (rule round_double_pos_int)
    have "v = libm_log2 N" using math_log2_direct[OF n0] True v by (simp add: N_def)
    moreover have "\<bar>libm_log2 N - log 2 N\<bar> \<le> 1 / 2" using N1 dbl by (intro libm_log2_near) simp_all
    moreover have "log 2 (2 ^ k) \<le> log 2 N" using Nk by (intro log_mono) simp_all
    moreover have "log 2 ((2::real) ^ k) = real k" by (rule log_pow_cancel) simp_all
    ultimately show ?thesis by linarith
  next
    case False
    then have big: "2 ^ 1024 \<le> round_double (real_of_int n)" by (simp add: N_def)
    obtain x e where fr: "long_frexp n = (x, e)" by (cases "long_frexp n")
    have x: "1 / 2 \<le> x" "is_double x" using long_frexp_round[OF n0 fr] by simp_all
    have e: "1025 \<le> e" using n0 big fr by (rule long_frexp_exponent)
    have "log 2 (1 / 2) \<le> log 2 x" using x(1) by (intro log_mono) simp_all
    then have "- 1 \<le> log 2 x" by (simp add: log_divide)
    moreover have "\<bar>libm_log2 x - log 2 x\<bar> \<le> 1 / 2" using x by (rule libm_log2_near)
    moreover have "(1025::real) \<le> of_int e" using e by simp
    ultimately have "1023 \<le> libm_log2 x + of_int e" by linarith
    then have "round_double 1023 \<le> round_double (libm_log2 x + of_int e)" by (rule round_double_mono)
    moreover have "round_double 1023 = 1023" using round_double_of_int[of 1023] by simp
    moreover have "v = round_double (libm_log2 x + of_int e)"
      using math_log2_fallback[OF n0 big fr] v by simp
    ultimately show ?thesis using rk by linarith
  qed
qed

section \<open>The two derived quantities\<close>

text \<open>
  What the floating-point lemmas say about \<open>cycle_bucket\<close>, \<open>kilo_bytes\<close> and
  \<open>calculate_computation_units\<close>: when they return, what they return, and how the
  results compare between two inputs.
\<close>

subsection \<open>cycle_bucket\<close>

lemma cycle_bucket_non_positive:
  assumes "num_cycles tx \<le> 0" shows "cycle_bucket tx = Inl ValueError"
  using assms by (simp add: cycle_bucket_def math_log2_def)

lemma cycle_bucket_returns:
  assumes "0 < num_cycles tx" shows "\<exists>cb. cycle_bucket tx = Inr cb"
  using math_log2_returns[OF assms] by (auto simp: cycle_bucket_def)

lemma cycle_bucket_exact:
  assumes "0 < num_cycles tx" "num_cycles tx \<le> 2 ^ 47"
  shows "cycle_bucket tx = Inr \<lceil>log 2 (real_of_int (num_cycles tx))\<rceil>"
proof -
  have "num_cycles tx \<le> 2 ^ 53" using assms(2) by simp
  then have "math_log2 (num_cycles tx) = Inr (libm_log2 (real_of_int (num_cycles tx)))"
    using assms(1) by (intro math_log2_small)
  then show ?thesis
    using ceiling_libm_log2[OF assms] by (simp add: cycle_bucket_def math_ceil_def)
qed

lemma cycle_bucket_power:
  assumes "k \<le> 2 ^ 53" "num_cycles tx = 2 ^ k" shows "cycle_bucket tx = Inr (int k)"
  using math_log2_power[OF assms(1)] assms(2) by (simp add: cycle_bucket_def math_ceil_def)

lemma cycle_bucket_lower:
  assumes "k \<le> 1023" "2 ^ k \<le> num_cycles tx" "cycle_bucket tx = Inr cb" shows "int k \<le> cb"
proof -
  obtain y where y: "math_log2 (num_cycles tx) = Inr y" "cb = \<lceil>y\<rceil>"
    using assms(3) by (auto simp: cycle_bucket_def math_ceil_def split: sum.splits)
  have "real k - 1 / 2 \<le> y" using assms(1,2) y(1) by (rule math_log2_lower)
  then have "real_of_int (int k) - 1 < y" by simp
  then have "int k - 1 < \<lceil>y\<rceil>" by (simp add: less_ceiling_iff)
  then show ?thesis by (simp add: y(2))
qed

lemma cycle_bucket_nonneg:
  assumes "0 < num_cycles tx" "cycle_bucket tx = Inr cb" shows "0 \<le> cb"
  using cycle_bucket_lower[of 0 tx cb] assms by simp

lemma cycle_bucket_le:
  assumes "0 < num_cycles a" "num_cycles a \<le> 2 ^ 47" "num_cycles a \<le> num_cycles b"
    and "cycle_bucket a = Inr p" "cycle_bucket b = Inr q"
  shows "p \<le> q"
proof -
  have p: "p = \<lceil>log 2 (real_of_int (num_cycles a))\<rceil>"
    using cycle_bucket_exact[OF assms(1,2)] assms(4) by simp
  show ?thesis
  proof (cases "num_cycles b \<le> 2 ^ 47")
    case True
    have "0 < num_cycles b" using assms(1,3) by simp
    then have "q = \<lceil>log 2 (real_of_int (num_cycles b))\<rceil>"
      using cycle_bucket_exact[OF _ True] assms(5) by simp
    moreover have "log 2 (real_of_int (num_cycles a)) \<le> log 2 (real_of_int (num_cycles b))"
      using assms(1,3) by (intro log_mono) simp_all
    ultimately show ?thesis unfolding p by (simp add: ceiling_mono)
  next
    case False
    then have "2 ^ 47 \<le> num_cycles b" by simp
    then have "int 47 \<le> q" using assms(5) by (intro cycle_bucket_lower) simp_all
    moreover have "real_of_int (num_cycles a) \<le> real_of_int (2 ^ 47)"
      using assms(2) by (simp only: of_int_le_iff)
    then have "log 2 (real_of_int (num_cycles a)) \<le> log 2 (real_of_int (2 ^ 47))"
      using assms(1) by (intro log_mono) simp_all
    moreover have "log 2 ((2::real) ^ 47) = real 47" by (rule log_pow_cancel) simp_all
    ultimately have "log 2 (real_of_int (num_cycles a)) \<le> real_of_int 47" "47 \<le> q" by simp_all
    then have "p \<le> 47" unfolding p by (simp only: ceiling_le_iff)
    then show ?thesis using \<open>47 \<le> q\<close> by simp
  qed
qed

subsection \<open>kilo_bytes\<close>

lemma kilo_bytes_value:
  assumes "kilo_bytes tx = Inr kb"
  shows "kb = \<lceil>round_double
    (real_of_int (created_public_notes_byte_size tx + public_account_delta_byte_size tx) / 1000)\<rceil>"
  using assms
  by (auto simp: kilo_bytes_def math_ceil_def int_true_div_def Let_def split: sum.splits if_splits)

lemma kilo_bytes_returns:
  assumes "\<bar>created_public_notes_byte_size tx + public_account_delta_byte_size tx\<bar> \<le> 1000 * 2 ^ 1023"
  shows "\<exists>kb. kilo_bytes tx = Inr kb"
proof -
  define s where "s = created_public_notes_byte_size tx + public_account_delta_byte_size tx"
  have "real_of_int \<bar>s\<bar> \<le> real_of_int (1000 * 2 ^ 1023)"
    using assms unfolding s_def by (simp only: of_int_le_iff)
  then have "\<bar>real_of_int s / real_of_int 1000\<bar> \<le> 2 ^ 1023" by simp
  then have "int_true_div s 1000 = Inr (round_double (real_of_int s / real_of_int 1000))"
    by (intro int_true_div_returns) simp_all
  then show ?thesis by (simp add: kilo_bytes_def s_def)
qed

lemma kilo_bytes_overflow:
  assumes "1000 * 2 ^ 1024 \<le> created_public_notes_byte_size tx + public_account_delta_byte_size tx"
  shows "kilo_bytes tx = Inl OverflowError"
proof -
  define s where "s = created_public_notes_byte_size tx + public_account_delta_byte_size tx"
  have "real_of_int (1000 * 2 ^ 1024) \<le> real_of_int s"
    using assms unfolding s_def by (simp only: of_int_le_iff)
  then have "2 ^ 1024 \<le> real_of_int s / real_of_int 1000" by simp
  then have "int_true_div s 1000 = Inl OverflowError"
    by (intro int_true_div_overflow) simp_all
  then show ?thesis by (simp add: kilo_bytes_def s_def)
qed

lemma kilo_bytes_exact:
  assumes "0 \<le> created_public_notes_byte_size tx + public_account_delta_byte_size tx"
    and "created_public_notes_byte_size tx + public_account_delta_byte_size tx \<le> 1000 * 2 ^ 44"
  shows "kilo_bytes tx =
    Inr \<lceil>real_of_int (created_public_notes_byte_size tx + public_account_delta_byte_size tx) / 1000\<rceil>"
proof -
  have "\<bar>created_public_notes_byte_size tx + public_account_delta_byte_size tx\<bar> \<le> 1000 * 2 ^ 1023"
    using assms by simp
  then obtain kb where kb: "kilo_bytes tx = Inr kb" using kilo_bytes_returns by blast
  show ?thesis
    using kilo_bytes_value[OF kb] ceiling_round_double_div_1000[OF assms] kb by simp
qed


lemma kilo_bytes_nonneg:
  assumes "0 \<le> created_public_notes_byte_size tx + public_account_delta_byte_size tx"
    and "kilo_bytes tx = Inr kb"
  shows "0 \<le> kb"
proof -
  have "0 \<le> real_of_int (created_public_notes_byte_size tx + public_account_delta_byte_size tx) / 1000"
    using assms(1) by simp
  then have "0 \<le> round_double
      (real_of_int (created_public_notes_byte_size tx + public_account_delta_byte_size tx) / 1000)"
    by (rule round_double_nonneg)
  then show ?thesis unfolding kilo_bytes_value[OF assms(2)] by simp
qed

subsection \<open>calculate_computation_units\<close>

lemma calculate_computation_units_value:
  assumes "cycle_bucket tx = Inr cb" "kilo_bytes tx = Inr kb"
  shows "calculate_computation_units tx =
    Inr \<lparr>cycle_units = cb * 500,
         notes_consumed_units = num_notes_consumed tx * 30,
         notes_created_units = num_notes_created tx * 50,
         data_units = kb * 15\<rparr>"
  using assms
  by (simp add: calculate_computation_units_def COMPUTATION_UNIT_PER_CYCLE_BUCKET_def
      COMPUTATION_UNIT_PER_CONSUMED_NOTE_def COMPUTATION_UNIT_PER_CREATED_NOTE_def
      COMPUTATION_UNIT_PER_KILO_BYTE_def)

lemma calculate_computation_units_Inr:
  assumes "calculate_computation_units tx = Inr s"
  obtains cb kb where "cycle_bucket tx = Inr cb" "kilo_bytes tx = Inr kb"
    "s = \<lparr>cycle_units = cb * 500,
          notes_consumed_units = num_notes_consumed tx * 30,
          notes_created_units = num_notes_created tx * 50,
          data_units = kb * 15\<rparr>"
  using assms
  by (auto simp: calculate_computation_units_def COMPUTATION_UNIT_PER_CYCLE_BUCKET_def
      COMPUTATION_UNIT_PER_CONSUMED_NOTE_def COMPUTATION_UNIT_PER_CREATED_NOTE_def
      COMPUTATION_UNIT_PER_KILO_BYTE_def split: sum.splits)

section \<open>Properties\<close>

subsection \<open>C1\<close>

text \<open>
  C1, as stated, fails: a negative metric other than \<open>num_cycles\<close> is not rejected. With
  \<open>num_notes_consumed = - 1\<close> the fee model returns a summary whose
  \<open>notes_consumed_units\<close> is \<open>- 30\<close>.
\<close>

theorem negative_input_counterexample:
  "calculate_computation_units
     \<lparr>num_cycles = 1024, num_notes_consumed = - 1, num_notes_created = 0,
       created_public_notes_byte_size = 0, public_account_delta_byte_size = 0\<rparr>
   = Inr \<lparr>cycle_units = 5000, notes_consumed_units = - 30, notes_created_units = 0,
          data_units = 0\<rparr>"
proof -
  let ?tx = "\<lparr>num_cycles = 1024, num_notes_consumed = - 1, num_notes_created = 0,
       created_public_notes_byte_size = 0, public_account_delta_byte_size = 0\<rparr>"
  have cb: "cycle_bucket ?tx = Inr 10" using cycle_bucket_power[of 10 ?tx] by simp
  have kb: "kilo_bytes ?tx = Inr 0" using kilo_bytes_exact[of ?tx] by simp
  show ?thesis using calculate_computation_units_value[OF cb kb] by simp
qed

text \<open>
  C1, amended: if \<open>num_cycles \<le> 0\<close> (zero or negative), \<open>cycle_bucket\<close> and with it
  \<open>calculate_computation_units\<close> fail with the ValueError of \<open>math.log2\<close>, the
  invalid-input error of the script. No other field is checked: for every input with
  \<open>num_cycles > 0\<close> and a combined byte size of at most \<open>1000 * 2 ^ 1023\<close> in absolute
  value, which covers the documented domains, and whatever the signs of the four other
  fields, \<open>calculate_computation_units\<close> computes without error and returns a summary
  with \<open>notes_consumed_units = num_notes_consumed * 30\<close> and
  \<open>notes_created_units = num_notes_created * 50\<close>, so that a negative note count yields
  a negative cost.
\<close>

theorem fee_model_errors:
  "(num_cycles tx \<le> 0 \<longrightarrow>
      cycle_bucket tx = Inl ValueError \<and> calculate_computation_units tx = Inl ValueError)
   \<and> (0 < num_cycles tx
       \<and> \<bar>created_public_notes_byte_size tx + public_account_delta_byte_size tx\<bar> \<le> 1000 * 2 ^ 1023
      \<longrightarrow> (\<exists>s. calculate_computation_units tx = Inr s
             \<and> notes_consumed_units s = num_notes_consumed tx * 30
             \<and> notes_created_units s = num_notes_created tx * 50
             \<and> (num_notes_consumed tx < 0 \<longrightarrow> notes_consumed_units s < 0)
             \<and> (num_notes_created tx < 0 \<longrightarrow> notes_created_units s < 0)))"
proof (intro conjI impI)
  assume "num_cycles tx \<le> 0"
  then show "cycle_bucket tx = Inl ValueError" by (rule cycle_bucket_non_positive)
  then show "calculate_computation_units tx = Inl ValueError"
    by (simp add: calculate_computation_units_def)
next
  assume a: "0 < num_cycles tx
       \<and> \<bar>created_public_notes_byte_size tx + public_account_delta_byte_size tx\<bar> \<le> 1000 * 2 ^ 1023"
  obtain cb where cb: "cycle_bucket tx = Inr cb" using cycle_bucket_returns a by blast
  obtain kb where kb: "kilo_bytes tx = Inr kb" using kilo_bytes_returns a by blast
  define s where "s = \<lparr>cycle_units = cb * 500,
            notes_consumed_units = num_notes_consumed tx * 30,
            notes_created_units = num_notes_created tx * 50,
            data_units = kb * 15\<rparr>"
  have "calculate_computation_units tx = Inr s"
    using calculate_computation_units_value[OF cb kb] by (simp add: s_def)
  moreover have "notes_consumed_units s = num_notes_consumed tx * 30"
    "notes_created_units s = num_notes_created tx * 50"
    by (simp_all add: s_def)
  moreover have "num_notes_consumed tx < 0 \<longrightarrow> notes_consumed_units s < 0"
    "num_notes_created tx < 0 \<longrightarrow> notes_created_units s < 0"
    by (simp_all add: s_def)
  ultimately show "\<exists>s. calculate_computation_units tx = Inr s
             \<and> notes_consumed_units s = num_notes_consumed tx * 30
             \<and> notes_created_units s = num_notes_created tx * 50
             \<and> (num_notes_consumed tx < 0 \<longrightarrow> notes_consumed_units s < 0)
             \<and> (num_notes_created tx < 0 \<longrightarrow> notes_created_units s < 0)"
    by blast
qed

theorem fee_model_errors_witness:
  "(0::int) \<le> 0
   \<and> calculate_computation_units
       \<lparr>num_cycles = 0, num_notes_consumed = 5, num_notes_created = 5,
         created_public_notes_byte_size = 1300, public_account_delta_byte_size = 0\<rparr>
     = Inl ValueError
   \<and> (0::int) < 2 ^ 29 \<and> \<bar>(- 20000::int) + 2 ^ 15\<bar> \<le> 1000 * 2 ^ 1023 \<and> (- 3::int) < 0
   \<and> (\<exists>s. calculate_computation_units
          \<lparr>num_cycles = 2 ^ 29, num_notes_consumed = - 3, num_notes_created = 1024,
            created_public_notes_byte_size = - 20000, public_account_delta_byte_size = 2 ^ 15\<rparr>
        = Inr s
        \<and> notes_consumed_units s = - 90 \<and> notes_created_units s = 51200
        \<and> notes_consumed_units s < 0)"
proof -
  have v: "calculate_computation_units
       \<lparr>num_cycles = 0, num_notes_consumed = 5, num_notes_created = 5,
         created_public_notes_byte_size = 1300, public_account_delta_byte_size = 0\<rparr>
     = Inl ValueError"
    using fee_model_errors
      [of "\<lparr>num_cycles = 0, num_notes_consumed = 5, num_notes_created = 5,
            created_public_notes_byte_size = 1300, public_account_delta_byte_size = 0\<rparr>",
        THEN conjunct1]
    by simp
  have "\<exists>s. calculate_computation_units
          \<lparr>num_cycles = 2 ^ 29, num_notes_consumed = - 3, num_notes_created = 1024,
            created_public_notes_byte_size = - 20000, public_account_delta_byte_size = 2 ^ 15\<rparr>
        = Inr s
        \<and> notes_consumed_units s = - 90 \<and> notes_created_units s = 51200
        \<and> notes_consumed_units s < 0"
    using fee_model_errors
      [of "\<lparr>num_cycles = 2 ^ 29, num_notes_consumed = - 3, num_notes_created = 1024,
            created_public_notes_byte_size = - 20000, public_account_delta_byte_size = 2 ^ 15\<rparr>",
        THEN conjunct2]
    by simp
  then show ?thesis using v by simp
qed

subsection \<open>C2\<close>

text \<open>
  C2, as stated, fails: with \<open>num_cycles > 0\<close> and a byte size of \<open>10 ^ 312\<close> the float
  division in \<open>kilo_bytes\<close> raises OverflowError, and \<open>calculate_computation_units\<close>
  returns no summary.
\<close>

theorem calculate_overflow_counterexample:
  "calculate_computation_units
     \<lparr>num_cycles = 1024, num_notes_consumed = 5, num_notes_created = 5,
       created_public_notes_byte_size = 10 ^ 312, public_account_delta_byte_size = 0\<rparr>
   = Inl OverflowError"
proof -
  let ?tx = "\<lparr>num_cycles = 1024, num_notes_consumed = 5, num_notes_created = 5,
       created_public_notes_byte_size = 10 ^ 312, public_account_delta_byte_size = 0\<rparr>"
  have cb: "cycle_bucket ?tx = Inr 10" using cycle_bucket_power[of 10 ?tx] by simp
  have kb: "kilo_bytes ?tx = Inl OverflowError" by (rule kilo_bytes_overflow) simp
  show ?thesis unfolding calculate_computation_units_def cb kb by simp
qed

text \<open>
  C2, amended: for every TransactionMetrics with \<open>num_cycles > 0\<close>, a summary that
  \<open>calculate_computation_units\<close> returns has \<open>cycle_units = cycle_bucket() * 500\<close>,
  \<open>notes_consumed_units = num_notes_consumed * 30\<close>,
  \<open>notes_created_units = num_notes_created * 50\<close> and \<open>data_units = kilo_bytes() * 15\<close>;
  and it returns that summary whenever the combined byte size is at most
  \<open>1000 * 2 ^ 1023\<close> in absolute value.
\<close>

theorem calculate_computation_units_formula:
  assumes "0 < num_cycles tx"
  shows "(\<forall>s. calculate_computation_units tx = Inr s \<longrightarrow>
            (\<exists>cb kb. cycle_bucket tx = Inr cb \<and> kilo_bytes tx = Inr kb
               \<and> s = \<lparr>cycle_units = cb * 500,
                      notes_consumed_units = num_notes_consumed tx * 30,
                      notes_created_units = num_notes_created tx * 50,
                      data_units = kb * 15\<rparr>))
    \<and> (\<bar>created_public_notes_byte_size tx + public_account_delta_byte_size tx\<bar> \<le> 1000 * 2 ^ 1023
         \<longrightarrow> (\<exists>cb kb. cycle_bucket tx = Inr cb \<and> kilo_bytes tx = Inr kb
               \<and> calculate_computation_units tx
                 = Inr \<lparr>cycle_units = cb * 500,
                        notes_consumed_units = num_notes_consumed tx * 30,
                        notes_created_units = num_notes_created tx * 50,
                        data_units = kb * 15\<rparr>))"
proof (intro conjI allI impI)
  fix s assume "calculate_computation_units tx = Inr s"
  then show "\<exists>cb kb. cycle_bucket tx = Inr cb \<and> kilo_bytes tx = Inr kb
               \<and> s = \<lparr>cycle_units = cb * 500,
                      notes_consumed_units = num_notes_consumed tx * 30,
                      notes_created_units = num_notes_created tx * 50,
                      data_units = kb * 15\<rparr>"
    by (rule calculate_computation_units_Inr) blast
next
  assume "\<bar>created_public_notes_byte_size tx + public_account_delta_byte_size tx\<bar> \<le> 1000 * 2 ^ 1023"
  then obtain kb where kb: "kilo_bytes tx = Inr kb" using kilo_bytes_returns by blast
  obtain cb where cb: "cycle_bucket tx = Inr cb" using cycle_bucket_returns[OF assms] by blast
  show "\<exists>cb kb. cycle_bucket tx = Inr cb \<and> kilo_bytes tx = Inr kb
               \<and> calculate_computation_units tx
                 = Inr \<lparr>cycle_units = cb * 500,
                        notes_consumed_units = num_notes_consumed tx * 30,
                        notes_created_units = num_notes_created tx * 50,
                        data_units = kb * 15\<rparr>"
    using cb kb calculate_computation_units_value[OF cb kb] by blast
qed

theorem calculate_computation_units_formula_witness:
  "(0::int) < 65536 \<and> \<bar>(6500::int) + 0\<bar> \<le> 1000 * 2 ^ 1023
   \<and> (\<exists>cb kb.
        cycle_bucket \<lparr>num_cycles = 65536, num_notes_consumed = 5, num_notes_created = 5,
            created_public_notes_byte_size = 6500, public_account_delta_byte_size = 0\<rparr> = Inr cb
      \<and> kilo_bytes \<lparr>num_cycles = 65536, num_notes_consumed = 5, num_notes_created = 5,
            created_public_notes_byte_size = 6500, public_account_delta_byte_size = 0\<rparr> = Inr kb
      \<and> calculate_computation_units
            \<lparr>num_cycles = 65536, num_notes_consumed = 5, num_notes_created = 5,
              created_public_notes_byte_size = 6500, public_account_delta_byte_size = 0\<rparr>
          = Inr \<lparr>cycle_units = cb * 500, notes_consumed_units = 150,
                 notes_created_units = 250, data_units = kb * 15\<rparr>)"
  using calculate_computation_units_formula
    [of "\<lparr>num_cycles = 65536, num_notes_consumed = 5, num_notes_created = 5,
          created_public_notes_byte_size = 6500, public_account_delta_byte_size = 0\<rparr>",
      THEN conjunct2]
  by simp

subsection \<open>C3\<close>

text \<open>
  C3, as stated, fails: \<open>math.log2\<close> works in floating point. \<open>2 ^ 53 + 1\<close> is no float
  and converts to \<open>2 ^ 53\<close> before the logarithm is taken, and the library's logarithm
  of a power of two is exact. \<open>cycle_bucket\<close> returns 53 where the ceiling of the base-2
  logarithm is 54.
\<close>

theorem cycle_bucket_large_counterexample:
  "cycle_bucket \<lparr>num_cycles = 2 ^ 53 + 1, num_notes_consumed = 0, num_notes_created = 0,
       created_public_notes_byte_size = 0, public_account_delta_byte_size = 0\<rparr> = Inr 53
   \<and> \<lceil>log 2 (real_of_int (2 ^ 53 + 1))\<rceil> = 54"
proof -
  have r: "round_double (real_of_int (2 ^ 53 + 1)) = 2 ^ 53"
    by (subst round_double_eval[where k = 53 and e = 1]) (simp_all add: round_half_even_def)
  have lt: "round_double (real_of_int (2 ^ 53 + 1)) < 2 ^ 1024" unfolding r by simp
  have "math_log2 (2 ^ 53 + 1) = Inr (libm_log2 (round_double (real_of_int (2 ^ 53 + 1))))"
    by (rule math_log2_direct[OF _ lt]) simp
  moreover have "libm_log2 (2 ^ 53) = real 53" by (rule libm_log2_power) simp
  ultimately have "math_log2 (2 ^ 53 + 1) = Inr 53" unfolding r by simp
  then have 1: "cycle_bucket \<lparr>num_cycles = 2 ^ 53 + 1, num_notes_consumed = 0, num_notes_created = 0,
       created_public_notes_byte_size = 0, public_account_delta_byte_size = 0\<rparr> = Inr 53"
    by (simp add: cycle_bucket_def math_ceil_def)
  have 2: "\<lceil>log 2 (real_of_int (2 ^ 53 + 1))\<rceil> = 54"
  proof (rule ceiling_unique)
    show "real_of_int 54 - 1 < log 2 (real_of_int (2 ^ 53 + 1))"
      by (subst less_log_iff) simp_all
    show "log 2 (real_of_int (2 ^ 53 + 1)) \<le> real_of_int 54"
      by (subst log_le_iff) simp_all
  qed
  show ?thesis using 1 2 by (rule conjI)
qed

text \<open>
  C3, amended: for \<open>0 < num_cycles \<le> 2 ^ 47\<close>, \<open>cycle_bucket\<close> returns the ceiling of the
  base-2 logarithm of \<open>num_cycles\<close>; and when \<open>num_cycles\<close> is a power of two \<open>2 ^ k\<close>
  (with \<open>k \<le> 2 ^ 52\<close>), \<open>cycle_bucket\<close> returns \<open>k\<close> exactly.
\<close>

theorem cycle_bucket_ceil_log2:
  "(0 < num_cycles tx \<and> num_cycles tx \<le> 2 ^ 47
      \<longrightarrow> cycle_bucket tx = Inr \<lceil>log 2 (real_of_int (num_cycles tx))\<rceil>)
   \<and> (k \<le> 2 ^ 52 \<and> num_cycles tx = 2 ^ k \<longrightarrow> cycle_bucket tx = Inr (int k))"
proof (intro conjI impI)
  assume "0 < num_cycles tx \<and> num_cycles tx \<le> 2 ^ 47"
  then show "cycle_bucket tx = Inr \<lceil>log 2 (real_of_int (num_cycles tx))\<rceil>"
    by (intro cycle_bucket_exact) simp_all
next
  assume a: "k \<le> 2 ^ 52 \<and> num_cycles tx = 2 ^ k"
  then have "k \<le> 2 ^ 53" by simp
  then show "cycle_bucket tx = Inr (int k)" using a by (intro cycle_bucket_power) simp_all
qed

theorem cycle_bucket_ceil_log2_witness:
  "(0::int) < 1000 \<and> (1000::int) \<le> 2 ^ 47 \<and> (20::nat) \<le> 2 ^ 52
   \<and> cycle_bucket \<lparr>num_cycles = 1000, num_notes_consumed = 0, num_notes_created = 0,
       created_public_notes_byte_size = 0, public_account_delta_byte_size = 0\<rparr>
     = Inr \<lceil>log 2 (real_of_int 1000)\<rceil>
   \<and> cycle_bucket \<lparr>num_cycles = 2 ^ 20, num_notes_consumed = 0, num_notes_created = 0,
       created_public_notes_byte_size = 0, public_account_delta_byte_size = 0\<rparr> = Inr 20"
  using cycle_bucket_ceil_log2
    [of "\<lparr>num_cycles = 1000, num_notes_consumed = 0, num_notes_created = 0,
          created_public_notes_byte_size = 0, public_account_delta_byte_size = 0\<rparr>" 0,
      THEN conjunct1]
    cycle_bucket_ceil_log2
    [of "\<lparr>num_cycles = 2 ^ 20, num_notes_consumed = 0, num_notes_created = 0,
          created_public_notes_byte_size = 0, public_account_delta_byte_size = 0\<rparr>" 20,
      THEN conjunct2]
  by simp

subsection \<open>C4\<close>

text \<open>
  C4, as stated, fails: \<open>kilo_bytes\<close> divides in floating point before it rounds up. For
  a combined byte size of \<open>1000 * 2 ^ 44 + 1\<close> the quotient \<open>2 ^ 44 + 0.001\<close> rounds to
  the float \<open>2 ^ 44\<close> (floats are \<open>1 / 256\<close> apart there), so \<open>kilo_bytes\<close> returns
  \<open>2 ^ 44\<close> where the ceiling of the exact quotient is \<open>2 ^ 44 + 1\<close>.
\<close>

theorem kilo_bytes_large_counterexample:
  "kilo_bytes \<lparr>num_cycles = 1024, num_notes_consumed = 0, num_notes_created = 0,
       created_public_notes_byte_size = 1000 * 2 ^ 44 + 1, public_account_delta_byte_size = 0\<rparr>
     = Inr (2 ^ 44)
   \<and> \<lceil>real_of_int (1000 * 2 ^ 44 + 1 + 0) / 1000\<rceil> = 2 ^ 44 + 1"
proof -
  have "round_double (real_of_int (1000 * 2 ^ 44 + 1) / 1000) = 2 ^ 44"
    by (subst round_double_eval[where k = 44 and e = "- 8"]) (simp_all add: round_half_even_def)
  then have "int_true_div (1000 * 2 ^ 44 + 1) 1000 = Inr (2 ^ 44)"
    by (simp add: int_true_div_def)
  then show ?thesis by (simp add: kilo_bytes_def math_ceil_def)
qed

text \<open>
  C4, amended: for non-negative byte sizes whose sum is at most \<open>1000 * 2 ^ 44\<close>,
  \<open>kilo_bytes\<close> returns the ceiling of the sum divided by 1000; in particular a combined
  byte size of 1 yields 1, of 1000 yields 1 and of 1001 yields 2.
\<close>

theorem kilo_bytes_rounds_up:
  assumes "0 \<le> created_public_notes_byte_size tx"
    and "0 \<le> public_account_delta_byte_size tx"
    and "created_public_notes_byte_size tx + public_account_delta_byte_size tx \<le> 1000 * 2 ^ 44"
  shows "kilo_bytes tx =
      Inr \<lceil>real_of_int (created_public_notes_byte_size tx + public_account_delta_byte_size tx) / 1000\<rceil>
    \<and> (created_public_notes_byte_size tx + public_account_delta_byte_size tx = 1
          \<longrightarrow> kilo_bytes tx = Inr 1)
    \<and> (created_public_notes_byte_size tx + public_account_delta_byte_size tx = 1000
          \<longrightarrow> kilo_bytes tx = Inr 1)
    \<and> (created_public_notes_byte_size tx + public_account_delta_byte_size tx = 1001
          \<longrightarrow> kilo_bytes tx = Inr 2)"
proof -
  define s where "s = created_public_notes_byte_size tx + public_account_delta_byte_size tx"
  have k: "kilo_bytes tx = Inr \<lceil>real_of_int s / 1000\<rceil>"
    unfolding s_def using assms by (intro kilo_bytes_exact) simp_all
  have "\<lceil>(1::real) / 1000\<rceil> = 1" by (rule ceiling_unique) simp_all
  then have 1: "s = 1 \<longrightarrow> kilo_bytes tx = Inr 1" using k by simp
  have 2: "s = 1000 \<longrightarrow> kilo_bytes tx = Inr 1" using k by simp
  have "\<lceil>(1001::real) / 1000\<rceil> = 2" by (rule ceiling_unique) simp_all
  then have 3: "s = 1001 \<longrightarrow> kilo_bytes tx = Inr 2" using k by simp
  show ?thesis using k 1 2 3 unfolding s_def by blast
qed

theorem kilo_bytes_rounds_up_witness:
  "kilo_bytes \<lparr>num_cycles = 1024, num_notes_consumed = 0, num_notes_created = 0,
       created_public_notes_byte_size = 1, public_account_delta_byte_size = 0\<rparr> = Inr 1
   \<and> kilo_bytes \<lparr>num_cycles = 1024, num_notes_consumed = 0, num_notes_created = 0,
       created_public_notes_byte_size = 1000, public_account_delta_byte_size = 0\<rparr> = Inr 1
   \<and> kilo_bytes \<lparr>num_cycles = 1024, num_notes_consumed = 0, num_notes_created = 0,
       created_public_notes_byte_size = 1000, public_account_delta_byte_size = 1\<rparr> = Inr 2
   \<and> kilo_bytes \<lparr>num_cycles = 1024, num_notes_consumed = 0, num_notes_created = 0,
       created_public_notes_byte_size = 0, public_account_delta_byte_size = 1000 * 2 ^ 44\<rparr>
     = Inr (2 ^ 44)"
  using kilo_bytes_rounds_up
    [of "\<lparr>num_cycles = 1024, num_notes_consumed = 0, num_notes_created = 0,
          created_public_notes_byte_size = 1, public_account_delta_byte_size = 0\<rparr>",
      THEN conjunct2, THEN conjunct1]
    kilo_bytes_rounds_up
    [of "\<lparr>num_cycles = 1024, num_notes_consumed = 0, num_notes_created = 0,
          created_public_notes_byte_size = 1000, public_account_delta_byte_size = 0\<rparr>",
      THEN conjunct2, THEN conjunct2, THEN conjunct1]
    kilo_bytes_rounds_up
    [of "\<lparr>num_cycles = 1024, num_notes_consumed = 0, num_notes_created = 0,
          created_public_notes_byte_size = 1000, public_account_delta_byte_size = 1\<rparr>",
      THEN conjunct2, THEN conjunct2, THEN conjunct2]
    kilo_bytes_rounds_up
    [of "\<lparr>num_cycles = 1024, num_notes_consumed = 0, num_notes_created = 0,
          created_public_notes_byte_size = 0, public_account_delta_byte_size = 1000 * 2 ^ 44\<rparr>",
      THEN conjunct1]
  by simp

subsection \<open>C5\<close>

text \<open>
  C5: for every ComputationSummary, \<open>total_computation_units\<close> is the sum of the four
  unit fields, read from the fields as they are.
\<close>

theorem total_computation_units_is_sum:
  "total_computation_units s =
     cycle_units s + notes_consumed_units s + notes_created_units s + data_units s"
  by (simp add: total_computation_units_def)

subsection \<open>C6\<close>

text \<open>
  C6: the script's large scenario, \<open>num_cycles = 1048576\<close>, 250 notes consumed and
  created, \<open>325000\<close> bytes of public notes and no account delta: \<open>cycle_bucket\<close> returns
  20, \<open>kilo_bytes\<close> returns 325, the summary is \<open>10000\<close>, \<open>7500\<close>, \<open>12500\<close>, \<open>4875\<close> and
  its total is \<open>34875\<close>.
\<close>

theorem large_scenario_units:
  "cycle_bucket \<lparr>num_cycles = 1048576, num_notes_consumed = 250, num_notes_created = 250,
       created_public_notes_byte_size = 325000, public_account_delta_byte_size = 0\<rparr> = Inr 20
   \<and> kilo_bytes \<lparr>num_cycles = 1048576, num_notes_consumed = 250, num_notes_created = 250,
       created_public_notes_byte_size = 325000, public_account_delta_byte_size = 0\<rparr> = Inr 325
   \<and> calculate_computation_units
       \<lparr>num_cycles = 1048576, num_notes_consumed = 250, num_notes_created = 250,
         created_public_notes_byte_size = 325000, public_account_delta_byte_size = 0\<rparr>
     = Inr \<lparr>cycle_units = 10000, notes_consumed_units = 7500, notes_created_units = 12500,
            data_units = 4875\<rparr>
   \<and> total_computation_units
       \<lparr>cycle_units = 10000, notes_consumed_units = 7500, notes_created_units = 12500,
         data_units = 4875\<rparr> = 34875"
proof -
  let ?tx = "\<lparr>num_cycles = 1048576, num_notes_consumed = 250, num_notes_created = 250,
       created_public_notes_byte_size = 325000, public_account_delta_byte_size = 0\<rparr>"
  have cb: "cycle_bucket ?tx = Inr 20" using cycle_bucket_power[of 20 ?tx] by simp
  have kb: "kilo_bytes ?tx = Inr 325" using kilo_bytes_exact[of ?tx] by simp
  have "calculate_computation_units ?tx
      = Inr \<lparr>cycle_units = 10000, notes_consumed_units = 7500, notes_created_units = 12500,
            data_units = 4875\<rparr>"
    using calculate_computation_units_value[OF cb kb] by simp
  then show ?thesis using cb kb by (simp add: total_computation_units_def)
qed

subsection \<open>C7\<close>

text \<open>
  C7, as stated, fails: a TransactionMetrics with five non-negative fields and
  \<open>num_cycles > 0\<close> need not have a summary returned; with an account delta of
  \<open>2 ^ 1040\<close> bytes \<open>calculate_computation_units\<close> raises OverflowError.
\<close>

theorem calculate_valid_input_counterexample:
  "calculate_computation_units
     \<lparr>num_cycles = 1048576, num_notes_consumed = 0, num_notes_created = 0,
       created_public_notes_byte_size = 0, public_account_delta_byte_size = 2 ^ 1040\<rparr>
   = Inl OverflowError"
proof -
  let ?tx = "\<lparr>num_cycles = 1048576, num_notes_consumed = 0, num_notes_created = 0,
       created_public_notes_byte_size = 0, public_account_delta_byte_size = 2 ^ 1040\<rparr>"
  have cb: "cycle_bucket ?tx = Inr 20" using cycle_bucket_power[of 20 ?tx] by simp
  have kb: "kilo_bytes ?tx = Inl OverflowError" by (rule kilo_bytes_overflow) simp
  show ?thesis unfolding calculate_computation_units_def cb kb by simp
qed

text \<open>
  C7, amended: for every TransactionMetrics with five non-negative fields and
  \<open>num_cycles > 0\<close>, a summary that \<open>calculate_computation_units\<close> returns has four
  non-negative fields; and it returns one whenever the combined byte size is at most
  \<open>1000 * 2 ^ 1023\<close>.
\<close>

theorem summary_fields_nonnegative:
  assumes "0 < num_cycles tx" and "0 \<le> num_notes_consumed tx" and "0 \<le> num_notes_created tx"
    and "0 \<le> created_public_notes_byte_size tx" and "0 \<le> public_account_delta_byte_size tx"
  shows "(\<forall>s. calculate_computation_units tx = Inr s \<longrightarrow>
            0 \<le> cycle_units s \<and> 0 \<le> notes_consumed_units s
            \<and> 0 \<le> notes_created_units s \<and> 0 \<le> data_units s)
    \<and> (created_public_notes_byte_size tx + public_account_delta_byte_size tx \<le> 1000 * 2 ^ 1023
         \<longrightarrow> (\<exists>s. calculate_computation_units tx = Inr s
               \<and> 0 \<le> cycle_units s \<and> 0 \<le> notes_consumed_units s
               \<and> 0 \<le> notes_created_units s \<and> 0 \<le> data_units s))"
proof -
  have sum0: "0 \<le> created_public_notes_byte_size tx + public_account_delta_byte_size tx"
    using assms(4,5) by simp
  have nonneg: "0 \<le> cycle_units s \<and> 0 \<le> notes_consumed_units s
      \<and> 0 \<le> notes_created_units s \<and> 0 \<le> data_units s"
    if calc: "calculate_computation_units tx = Inr s" for s
  proof -
    obtain cb kb where c: "cycle_bucket tx = Inr cb" "kilo_bytes tx = Inr kb"
      "s = \<lparr>cycle_units = cb * 500,
            notes_consumed_units = num_notes_consumed tx * 30,
            notes_created_units = num_notes_created tx * 50,
            data_units = kb * 15\<rparr>"
      using calculate_computation_units_Inr[OF calc] by blast
    have "0 \<le> cb" using assms(1) c(1) by (rule cycle_bucket_nonneg)
    moreover have "0 \<le> kb" using sum0 c(2) by (rule kilo_bytes_nonneg)
    ultimately show ?thesis using assms(2,3) by (simp add: c(3))
  qed
  have returns: "\<exists>s. calculate_computation_units tx = Inr s"
    if "created_public_notes_byte_size tx + public_account_delta_byte_size tx \<le> 1000 * 2 ^ 1023"
  proof -
    have "\<bar>created_public_notes_byte_size tx + public_account_delta_byte_size tx\<bar> \<le> 1000 * 2 ^ 1023"
      using that sum0 by simp
    then obtain kb where kb: "kilo_bytes tx = Inr kb" using kilo_bytes_returns by blast
    obtain cb where cb: "cycle_bucket tx = Inr cb" using cycle_bucket_returns[OF assms(1)] by blast
    show ?thesis using calculate_computation_units_value[OF cb kb] by blast
  qed
  show ?thesis using nonneg returns by blast
qed

theorem summary_fields_nonnegative_witness:
  "(0::int) < 65536 \<and> (0::int) \<le> 5 \<and> (0::int) \<le> 1300 \<and> (0::int) \<le> 0
   \<and> (1300::int) + 0 \<le> 1000 * 2 ^ 1023
   \<and> (\<exists>s. calculate_computation_units
          \<lparr>num_cycles = 65536, num_notes_consumed = 5, num_notes_created = 5,
            created_public_notes_byte_size = 1300, public_account_delta_byte_size = 0\<rparr> = Inr s
        \<and> 0 \<le> cycle_units s \<and> 0 \<le> notes_consumed_units s
        \<and> 0 \<le> notes_created_units s \<and> 0 \<le> data_units s)"
  using summary_fields_nonnegative
    [of "\<lparr>num_cycles = 65536, num_notes_consumed = 5, num_notes_created = 5,
          created_public_notes_byte_size = 1300, public_account_delta_byte_size = 0\<rparr>",
      THEN conjunct2]
  by simp

subsection \<open>C9\<close>




subsection \<open>C10\<close>

text \<open>
  C10: \<open>kilo_bytes\<close> and with it \<open>data_units\<close> depend on the two byte sizes through their
  sum only: two TransactionMetrics that agree on \<open>num_cycles\<close>, \<open>num_notes_consumed\<close> and
  \<open>num_notes_created\<close> and whose byte sizes have equal sums have the same \<open>kilo_bytes\<close>
  and the same outcome of \<open>calculate_computation_units\<close>.
\<close>

theorem calculate_depends_on_byte_sum:
  assumes "num_cycles a = num_cycles b"
    and "num_notes_consumed a = num_notes_consumed b"
    and "num_notes_created a = num_notes_created b"
    and "created_public_notes_byte_size a + public_account_delta_byte_size a
       = created_public_notes_byte_size b + public_account_delta_byte_size b"
  shows "kilo_bytes a = kilo_bytes b
    \<and> calculate_computation_units a = calculate_computation_units b"
proof -
  have k: "kilo_bytes a = kilo_bytes b" using assms(4) by (simp add: kilo_bytes_def)
  have c: "cycle_bucket a = cycle_bucket b" using assms(1) by (simp add: cycle_bucket_def)
  show ?thesis by (simp only: calculate_computation_units_def k c assms(2,3))
qed

theorem calculate_depends_on_byte_sum_witness:
  "kilo_bytes \<lparr>num_cycles = 1024, num_notes_consumed = 2, num_notes_created = 3,
       created_public_notes_byte_size = 1300, public_account_delta_byte_size = 200\<rparr>
     = kilo_bytes \<lparr>num_cycles = 1024, num_notes_consumed = 2, num_notes_created = 3,
       created_public_notes_byte_size = 500, public_account_delta_byte_size = 1000\<rparr>
   \<and> calculate_computation_units
       \<lparr>num_cycles = 1024, num_notes_consumed = 2, num_notes_created = 3,
         created_public_notes_byte_size = 1300, public_account_delta_byte_size = 200\<rparr>
     = calculate_computation_units
       \<lparr>num_cycles = 1024, num_notes_consumed = 2, num_notes_created = 3,
         created_public_notes_byte_size = 500, public_account_delta_byte_size = 1000\<rparr>"
  by (rule calculate_depends_on_byte_sum) simp_all

section \<open>Further properties of the fee model\<close>

text \<open>
  The script's small scenario, \<open>num_cycles = 65536\<close>, 5 notes consumed and created and
  no public data: \<open>cycle_bucket\<close> returns 16, \<open>kilo_bytes\<close> returns 0, the summary is
  \<open>8000\<close>, \<open>150\<close>, \<open>250\<close>, \<open>0\<close> and its total is \<open>8400\<close>.
\<close>

theorem small_scenario_units:
  "cycle_bucket \<lparr>num_cycles = 65536, num_notes_consumed = 5, num_notes_created = 5,
       created_public_notes_byte_size = 0, public_account_delta_byte_size = 0\<rparr> = Inr 16
   \<and> kilo_bytes \<lparr>num_cycles = 65536, num_notes_consumed = 5, num_notes_created = 5,
       created_public_notes_byte_size = 0, public_account_delta_byte_size = 0\<rparr> = Inr 0
   \<and> calculate_computation_units
       \<lparr>num_cycles = 65536, num_notes_consumed = 5, num_notes_created = 5,
         created_public_notes_byte_size = 0, public_account_delta_byte_size = 0\<rparr>
     = Inr \<lparr>cycle_units = 8000, notes_consumed_units = 150, notes_created_units = 250,
            data_units = 0\<rparr>
   \<and> total_computation_units
       \<lparr>cycle_units = 8000, notes_consumed_units = 150, notes_created_units = 250,
         data_units = 0\<rparr> = 8400"
proof -
  let ?tx = "\<lparr>num_cycles = 65536, num_notes_consumed = 5, num_notes_created = 5,
       created_public_notes_byte_size = 0, public_account_delta_byte_size = 0\<rparr>"
  have cb: "cycle_bucket ?tx = Inr 16" using cycle_bucket_power[of 16 ?tx] by simp
  have kb: "kilo_bytes ?tx = Inr 0" using kilo_bytes_exact[of ?tx] by simp
  have "calculate_computation_units ?tx
      = Inr \<lparr>cycle_units = 8000, notes_consumed_units = 150, notes_created_units = 250,
            data_units = 0\<rparr>"
    using calculate_computation_units_value[OF cb kb] by simp
  then show ?thesis using cb kb by (simp add: total_computation_units_def)
qed

text \<open>
  The boundary \<open>num_cycles = 1\<close> is accepted: \<open>cycle_bucket\<close> returns 0 and the cycles
  cost nothing.
\<close>

theorem one_cycle_bucket_zero:
  "cycle_bucket \<lparr>num_cycles = 1, num_notes_consumed = 0, num_notes_created = 0,
       created_public_notes_byte_size = 0, public_account_delta_byte_size = 0\<rparr> = Inr 0
   \<and> calculate_computation_units
       \<lparr>num_cycles = 1, num_notes_consumed = 0, num_notes_created = 0,
         created_public_notes_byte_size = 0, public_account_delta_byte_size = 0\<rparr>
     = Inr \<lparr>cycle_units = 0, notes_consumed_units = 0, notes_created_units = 0,
            data_units = 0\<rparr>"
proof -
  let ?tx = "\<lparr>num_cycles = 1, num_notes_consumed = 0, num_notes_created = 0,
       created_public_notes_byte_size = 0, public_account_delta_byte_size = 0\<rparr>"
  have cb: "cycle_bucket ?tx = Inr 0" using cycle_bucket_power[of 0 ?tx] by simp
  have kb: "kilo_bytes ?tx = Inr 0" using kilo_bytes_exact[of ?tx] by simp
  show ?thesis using cb calculate_computation_units_value[OF cb kb] by simp
qed

text \<open>
  Scaling: doubling \<open>num_notes_consumed\<close> doubles \<open>notes_consumed_units\<close>, and doubling
  \<open>num_notes_created\<close> doubles \<open>notes_created_units\<close>, in any two summaries returned.
\<close>

theorem note_units_double:
  assumes "calculate_computation_units tx = Inr s"
    and "calculate_computation_units
           (tx\<lparr>num_notes_consumed := 2 * num_notes_consumed tx,
               num_notes_created := 2 * num_notes_created tx\<rparr>) = Inr t"
  shows "notes_consumed_units t = 2 * notes_consumed_units s
    \<and> notes_created_units t = 2 * notes_created_units s"
proof -
  obtain cb kb where s: "s = \<lparr>cycle_units = cb * 500,
          notes_consumed_units = num_notes_consumed tx * 30,
          notes_created_units = num_notes_created tx * 50,
          data_units = kb * 15\<rparr>"
    using calculate_computation_units_Inr[OF assms(1)] by blast
  let ?tx' = "tx\<lparr>num_notes_consumed := 2 * num_notes_consumed tx,
               num_notes_created := 2 * num_notes_created tx\<rparr>"
  obtain cb' kb' where t: "t = \<lparr>cycle_units = cb' * 500,
          notes_consumed_units = num_notes_consumed ?tx' * 30,
          notes_created_units = num_notes_created ?tx' * 50,
          data_units = kb' * 15\<rparr>"
    using calculate_computation_units_Inr[OF assms(2)] by blast
  show ?thesis by (simp add: s t)
qed

theorem note_units_double_witness:
  "\<exists>s t. calculate_computation_units
          \<lparr>num_cycles = 65536, num_notes_consumed = 5, num_notes_created = 7,
            created_public_notes_byte_size = 0, public_account_delta_byte_size = 0\<rparr> = Inr s
     \<and> calculate_computation_units
          \<lparr>num_cycles = 65536, num_notes_consumed = 10, num_notes_created = 14,
            created_public_notes_byte_size = 0, public_account_delta_byte_size = 0\<rparr> = Inr t
     \<and> notes_consumed_units t = 2 * notes_consumed_units s
     \<and> notes_created_units t = 2 * notes_created_units s"
proof -
  let ?a = "\<lparr>num_cycles = 65536, num_notes_consumed = 5, num_notes_created = 7,
            created_public_notes_byte_size = 0, public_account_delta_byte_size = 0\<rparr>"
  let ?b = "\<lparr>num_cycles = 65536, num_notes_consumed = 10, num_notes_created = 14,
            created_public_notes_byte_size = 0, public_account_delta_byte_size = 0\<rparr>"
  have cba: "cycle_bucket ?a = Inr 16" using cycle_bucket_power[of 16 ?a] by simp
  have kba: "kilo_bytes ?a = Inr 0" using kilo_bytes_exact[of ?a] by simp
  have cbb: "cycle_bucket ?b = Inr 16" using cycle_bucket_power[of 16 ?b] by simp
  have kbb: "kilo_bytes ?b = Inr 0" using kilo_bytes_exact[of ?b] by simp
  note a = calculate_computation_units_value[OF cba kba]
  note b = calculate_computation_units_value[OF cbb kbb]
  have "?b = ?a\<lparr>num_notes_consumed := 2 * num_notes_consumed ?a,
               num_notes_created := 2 * num_notes_created ?a\<rparr>" by simp
  then have b': "calculate_computation_units
      (?a\<lparr>num_notes_consumed := 2 * num_notes_consumed ?a,
               num_notes_created := 2 * num_notes_created ?a\<rparr>)
      = Inr \<lparr>cycle_units = 16 * 500, notes_consumed_units = num_notes_consumed ?b * 30,
          notes_created_units = num_notes_created ?b * 50, data_units = 0 * 15\<rparr>"
    using b by simp
  from note_units_double[OF a b'] a b show ?thesis by blast
qed

text \<open>
  From a value of at most \<open>2 ^ 47\<close> on, \<open>cycle_bucket\<close> never decreases when \<open>num_cycles\<close>
  grows: for \<open>0 < m \<le> n\<close> with \<open>m \<le> 2 ^ 47\<close> both calls return, and the bucket of \<open>m\<close> is
  at most the bucket of \<open>n\<close>, however large \<open>n\<close> is.
\<close>

theorem cycle_bucket_monotone_from_small:
  assumes "0 < num_cycles a" and "num_cycles a \<le> 2 ^ 47" and "num_cycles a \<le> num_cycles b"
  shows "\<exists>p q. cycle_bucket a = Inr p \<and> cycle_bucket b = Inr q \<and> p \<le> q"
proof -
  obtain p where p: "cycle_bucket a = Inr p" using cycle_bucket_returns[OF assms(1)] by blast
  have "0 < num_cycles b" using assms by simp
  then obtain q where q: "cycle_bucket b = Inr q" using cycle_bucket_returns by blast
  have "p \<le> q" using assms p q by (rule cycle_bucket_le)
  then show ?thesis using p q by blast
qed

theorem cycle_bucket_monotone_from_small_witness:
  "(0::int) < 1000 \<and> (1000::int) \<le> 2 ^ 47 \<and> (1000::int) \<le> 2 ^ 60 + 1
   \<and> (\<exists>p q. cycle_bucket \<lparr>num_cycles = 1000, num_notes_consumed = 5, num_notes_created = 5,
         created_public_notes_byte_size = 0, public_account_delta_byte_size = 0\<rparr> = Inr p
     \<and> cycle_bucket \<lparr>num_cycles = 2 ^ 60 + 1, num_notes_consumed = 5, num_notes_created = 5,
         created_public_notes_byte_size = 0, public_account_delta_byte_size = 0\<rparr> = Inr q
     \<and> p \<le> q)"
  using cycle_bucket_monotone_from_small
    [of "\<lparr>num_cycles = 1000, num_notes_consumed = 5, num_notes_created = 5,
          created_public_notes_byte_size = 0, public_account_delta_byte_size = 0\<rparr>"
        "\<lparr>num_cycles = 2 ^ 60 + 1, num_notes_consumed = 5, num_notes_created = 5,
          created_public_notes_byte_size = 0, public_account_delta_byte_size = 0\<rparr>"]
  by simp

end
